theory Spec2Isabelle
  imports Complex_Main "HOL-Library.AList"
begin

section \<open>Truthful auction of heterogeneous divisible goods: the approximation algorithms\<close>

text \<open>
  A shallow embedding of \<^verbatim>\<open>time_auction_approximation.py\<close>.

  Conventions of the embedding.
  \<^item> Numbers are real numbers (\<^typ>\<open>real\<close>) and the arithmetic of the source is
    exact; \<^verbatim>\<open>int(x)\<close> is truncation. The rounding of IEEE doubles is not part of the
    model.
  \<^item> An exception is a value \<open>Inl e\<close> of a sum type; a loop that may run forever
    returns an \<open>option\<close>, \<open>None\<close> meaning that it does not return.
  \<^item> A Python \<^verbatim>\<open>dict\<close> is an association list with distinct keys in insertion order
    (\<^const>\<open>AList.update\<close> is the assignment \<^verbatim>\<open>d[k] = v\<close>); a Python \<^verbatim>\<open>set\<close> is a
    duplicate-free list, enumerated in insertion order (the language fixes no order).
  \<^item> The agents (\<^verbatim>\<open>agents.py\<close>), the allocation container (\<^verbatim>\<open>allocations.py\<close>), the
    matching solver (\<^verbatim>\<open>networkx.max_weight_matching\<close>) and the random source are
    outside the file: the first and the last two are parameters of the algorithms, the
    second is modelled from its description.
\<close>

subsection \<open>Data\<close>

type_synonym piece = "real \<times> real"

text \<open>The values that occur as graph nodes: an Agent object or a piece tuple
  (the source tells them apart with \<^verbatim>\<open>isinstance(x, Agent)\<close>).\<close>

datatype 'a node = AgentNode 'a | PieceNode piece

type_synonym 'a edge = "'a node \<times> 'a node"

datatype error = ValueError string | TypeError string | IndexError string

text \<open>The capability set of an agent that the algorithms consume:
  \<^verbatim>\<open>a.eval(start, end)\<close>, \<^verbatim>\<open>a.mark(start, value)\<close> (\<open>None\<close> when no position exists),
  \<^verbatim>\<open>a.cake_length()\<close> and \<^verbatim>\<open>a.cake_value()\<close>.\<close>

record 'a valuation =
  eval :: "'a \<Rightarrow> real \<Rightarrow> real \<Rightarrow> real"
  mark :: "'a \<Rightarrow> real \<Rightarrow> real \<Rightarrow> real option"
  cake_length :: "'a \<Rightarrow> real"
  cake_value :: "'a \<Rightarrow> real"

text \<open>A \<^verbatim>\<open>networkx.DiGraph\<close>: its nodes, and its directed edges with their
  \<^verbatim>\<open>weight\<close> attribute.\<close>

record 'a graph =
  nodes :: "'a node list"
  adj :: "('a edge \<times> real) list"

text \<open>Modelled from the spec: the allocation container of \<^verbatim>\<open>allocations.py\<close>, which is
  not among the sources. It is constructed from an ordered sequence of chosen agents,
  \<^verbatim>\<open>set_piece(agent_index, piece)\<close> assigns a piece list to the agent at that position,
  and it exposes, per agent, the assigned pieces.\<close>

record 'a allocation =
  alloc_agents :: "'a node list"
  alloc_pieces :: "'a node list option list"

definition Allocation :: "'a node list \<Rightarrow> 'a allocation" where
  "Allocation chosen = \<lparr>alloc_agents = chosen, alloc_pieces = replicate (length chosen) None\<rparr>"

definition set_piece :: "'a allocation \<Rightarrow> nat \<Rightarrow> 'a node list \<Rightarrow> 'a allocation" where
  "set_piece allocation agent_index p =
     allocation\<lparr>alloc_pieces := (alloc_pieces allocation)[agent_index := Some p]\<rparr>"

subsection \<open>Python primitives\<close>

text \<open>\<^verbatim>\<open>int(x)\<close> truncates towards zero.\<close>

definition py_int :: "real \<Rightarrow> int" where
  "py_int x = (if 0 \<le> x then \<lfloor>x\<rfloor> else \<lceil>x\<rceil>)"

text \<open>\<^verbatim>\<open>range(start, stop, step)\<close> for a positive step (the only steps of the source
  are \<open>1\<close> and \<open>2 ** t\<close>).\<close>

function py_range :: "int \<Rightarrow> int \<Rightarrow> int \<Rightarrow> int list" where
  "py_range start stop step =
     (if 0 < step \<and> start < stop then start # py_range (start + step) stop step else [])"
  by pat_completeness auto
termination
  by (relation "measure (\<lambda>(start, stop, step). nat (stop - start))") auto

declare py_range.simps [simp del]

text \<open>\<^verbatim>\<open>xs[i]\<close>: a negative index counts from the end, an index out of range raises.\<close>

definition py_get :: "'b list \<Rightarrow> int \<Rightarrow> error + 'b" where
  "py_get xs i =
     (if 0 \<le> i \<and> i < int (length xs) then Inr (xs ! nat i)
      else if i < 0 \<and> - int (length xs) \<le> i then Inr (xs ! nat (int (length xs) + i))
      else Inl (IndexError ''list index out of range''))"

text \<open>\<^verbatim>\<open>s.add(x)\<close> on a set.\<close>

definition set_add :: "'b \<Rightarrow> 'b list \<Rightarrow> 'b list" where
  "set_add x s = (if x \<in> set s then s else s @ [x])"

text \<open>\<^verbatim>\<open>xs.index(x)\<close>: the first position of \<open>x\<close>, or ValueError.\<close>

fun py_index :: "'b list \<Rightarrow> 'b \<Rightarrow> error + nat" where
  "py_index [] x = Inl (ValueError ''x is not in list'')"
| "py_index (y # ys) x =
     (if y = x then Inr 0
      else (case py_index ys x of Inl e \<Rightarrow> Inl e | Inr i \<Rightarrow> Inr (Suc i)))"

text \<open>\<^verbatim>\<open>max(xs)\<close> of a list.\<close>

fun py_max :: "real list \<Rightarrow> error + real" where
  "py_max [] = Inl (ValueError ''max() arg is an empty sequence'')"
| "py_max (x # xs) = Inr (fold max xs x)"

text \<open>\<^verbatim>\<open>int(log(m, 2))\<close> for a list length \<open>m\<close>: \<^verbatim>\<open>math.log\<close> raises ValueError at
  \<open>0\<close>; elsewhere the logarithm is taken at its mathematical value, so that the result
  is the largest \<open>r\<close> with \<open>2 ^ r \<le> m\<close>.\<close>

fun floor_log2 :: "nat \<Rightarrow> nat" where
  "floor_log2 m = (if m < 2 then 0 else Suc (floor_log2 (m div 2)))"

declare floor_log2.simps [simp del]

definition int_log2 :: "nat \<Rightarrow> error + nat" where
  "int_log2 m = (if m = 0 then Inl (ValueError ''math domain error'') else Inr (floor_log2 m))"

text \<open>\<^verbatim>\<open>float("%.4f" % x)\<close>: \<open>x\<close> rounded to four decimal digits, a tie going to the
  even neighbour.\<close>

definition round_half_even :: "real \<Rightarrow> int" where
  "round_half_even x =
     (let f = \<lfloor>x\<rfloor>; d = x - of_int f
      in if d < 1 / 2 then f else if 1 / 2 < d then f + 1 else if even f then f else f + 1)"

definition round4 :: "real \<Rightarrow> real" where
  "round4 x = of_int (round_half_even (x * 10000)) / 10000"

subsection \<open>The helpers of the source\<close>

text \<open>\<^verbatim>\<open>create_partition(size, start)\<close>. The loop runs forever when \<open>size \<le> 0\<close> and
  \<open>start + size \<le> 1\<close>.\<close>

partial_function (option) create_partition_loop ::
  "real \<Rightarrow> real \<Rightarrow> real \<Rightarrow> piece list \<Rightarrow> piece list option" where
  "create_partition_loop sz start stop res =
     (if stop \<le> 1 then create_partition_loop sz stop (stop + sz) (res @ [(start, stop)])
      else Some res)"

declare create_partition_loop.simps [code]

definition create_partition :: "real \<Rightarrow> real \<Rightarrow> piece list option" where
  "create_partition sz start = create_partition_loop sz start (start + sz) []"

text \<open>\<^verbatim>\<open>fix_edges(edges_set)\<close>.\<close>

definition is_agent :: "'a node \<Rightarrow> bool" where
  "is_agent x = (case x of AgentNode _ \<Rightarrow> True | PieceNode _ \<Rightarrow> False)"

definition fix_edges :: "'a edge list \<Rightarrow> 'a edge list" where
  "fix_edges edges_set =
     fold (\<lambda>edge ret.
             if \<not> is_agent (fst edge) then set_add (snd edge, fst edge) ret
             else set_add (fst edge, snd edge) ret)
       edges_set []"

text \<open>\<^verbatim>\<open>change_partition(partition, t)\<close>.\<close>

fun change_partition_loop ::
  "piece list \<Rightarrow> nat \<Rightarrow> int list \<Rightarrow> piece list \<Rightarrow> error + piece list" where
  "change_partition_loop pieces t [] ret = Inr ret"
| "change_partition_loop pieces t (start # rest) ret =
     (let stop = start + 2 ^ t - 1 in
      case py_get pieces start of Inl e \<Rightarrow> Inl e
      | Inr p_start \<Rightarrow>
          (case py_get pieces stop of Inl e \<Rightarrow> Inl e
           | Inr p_stop \<Rightarrow>
               change_partition_loop pieces t rest (ret @ [(fst p_start, snd p_stop)])))"

definition change_partition :: "piece list \<Rightarrow> nat \<Rightarrow> error + piece list" where
  "change_partition pieces t =
     change_partition_loop pieces t
       (py_range 0 (int (length pieces) - 2 ^ t + 1) (2 ^ t)) []"

text \<open>\<^verbatim>\<open>calculate_weight(g, edges_set)\<close>; \<^verbatim>\<open>g.get_edge_data(u, v)\<close> is \<open>None\<close> when the
  graph has no edge from \<open>u\<close> to \<open>v\<close>, and subscripting \<open>None\<close> raises TypeError.\<close>

definition get_edge_data :: "'a graph \<Rightarrow> 'a node \<Rightarrow> 'a node \<Rightarrow> real option" where
  "get_edge_data g u v = map_of (adj g) (u, v)"

fun calculate_weight_loop :: "'a graph \<Rightarrow> 'a edge list \<Rightarrow> real \<Rightarrow> error + real" where
  "calculate_weight_loop g [] ret = Inr ret"
| "calculate_weight_loop g (edge # rest) ret =
     (case get_edge_data g (fst edge) (snd edge) of
        None \<Rightarrow> Inl (TypeError ''NoneType object is not subscriptable'')
      | Some w \<Rightarrow> calculate_weight_loop g rest (ret + w))"

definition calculate_weight :: "'a graph \<Rightarrow> 'a edge list \<Rightarrow> error + real" where
  "calculate_weight g edges_set = calculate_weight_loop g edges_set 0"

text \<open>\<^verbatim>\<open>create_matching_graph(left, right, weights)\<close>: \<^verbatim>\<open>add_nodes_from\<close> and
  \<^verbatim>\<open>add_edge\<close> of networkx; \<^verbatim>\<open>add_edge\<close> adds its endpoints when they are not nodes yet.
  (The \<^verbatim>\<open>bipartite\<close> node attribute is read nowhere and is left out.)\<close>

definition add_node :: "'a node \<Rightarrow> 'a graph \<Rightarrow> 'a graph" where
  "add_node n g = g\<lparr>nodes := set_add n (nodes g)\<rparr>"

definition add_edge :: "'a node \<Rightarrow> 'a node \<Rightarrow> real \<Rightarrow> 'a graph \<Rightarrow> 'a graph" where
  "add_edge u v w g =
     (let g' = add_node v (add_node u g) in g'\<lparr>adj := AList.update (u, v) w (adj g')\<rparr>)"

definition create_matching_graph ::
  "'a list \<Rightarrow> piece list \<Rightarrow> (('a \<times> piece) \<times> real) list \<Rightarrow> 'a graph" where
  "create_matching_graph left right weights =
     (let g0 = \<lparr>nodes = [], adj = []\<rparr>;
          g1 = fold (\<lambda>a. add_node (AgentNode a)) left g0;
          g2 = fold (\<lambda>p. add_node (PieceNode p)) right g1
      in fold (\<lambda>kv. add_edge (AgentNode (fst (fst kv))) (PieceNode (snd (fst kv))) (snd kv))
           weights g2)"

subsection \<open>Blocks shared by the algorithms\<close>

text \<open>The evaluation loop of \<^verbatim>\<open>equally_sized_pieces\<close> and \<^verbatim>\<open>discrete_setting\<close>:
  \<^verbatim>\<open>for piece in pieces: for agent in agents: evaluations[(agent, piece)] = agent.eval(...)\<close>.\<close>

definition evaluate ::
  "'a valuation \<Rightarrow> 'a list \<Rightarrow> piece list \<Rightarrow> (('a \<times> piece) \<times> real) list" where
  "evaluate orc agents pieces =
     fold (\<lambda>piece evaluations.
             fold (\<lambda>agent evaluations.
                     AList.update (agent, piece) (eval orc agent (fst piece) (snd piece)) evaluations)
               agents evaluations)
       pieces []"

text \<open>The last lines of both algorithms: the chosen agents are the first components of
  the edges, and every edge sets the piece of its agent.\<close>

fun set_pieces :: "'a node list \<Rightarrow> 'a edge list \<Rightarrow> 'a allocation \<Rightarrow> error + 'a allocation" where
  "set_pieces chosen_agents [] allocation = Inr allocation"
| "set_pieces chosen_agents (edge # rest) allocation =
     (case py_index chosen_agents (fst edge) of Inl e \<Rightarrow> Inl e
      | Inr i \<Rightarrow> set_pieces chosen_agents rest (set_piece allocation i [snd edge]))"

definition allocate :: "'a edge list \<Rightarrow> error + 'a allocation" where
  "allocate edges_set =
     (let chosen_agents = map fst edges_set
      in set_pieces chosen_agents edges_set (Allocation chosen_agents))"

subsection \<open>Algorithm 1: equally sized pieces\<close>

definition normalize :: "real \<Rightarrow> piece list \<Rightarrow> piece list" where
  "normalize len ps = map (\<lambda>p. (of_int (py_int (fst p * len)), of_int (py_int (snd p * len)))) ps"

text \<open>The graph that \<^verbatim>\<open>equally_sized_pieces\<close> builds for one of its two tilings: the
  evaluations are those of the pieces of both tilings.\<close>

definition tiling_graph ::
  "'a valuation \<Rightarrow> 'a list \<Rightarrow> real \<Rightarrow> piece list \<Rightarrow> piece list \<Rightarrow> piece list \<Rightarrow> 'a graph" where
  "tiling_graph orc agents len partition_0_l partition_delta_l tiling =
     (let all_partitions = partition_0_l @ partition_delta_l;
          normalize_partitions = normalize len all_partitions;
          evaluations = evaluate orc agents normalize_partitions
      in create_matching_graph agents (normalize len tiling) evaluations)"

definition choose_heavier ::
  "'a valuation \<Rightarrow> ('a graph \<Rightarrow> 'a edge list) \<Rightarrow> 'a list \<Rightarrow> piece list \<Rightarrow> piece list
     \<Rightarrow> error + 'a edge list" where
  "choose_heavier orc max_weight_matching agents partition_0_l partition_delta_l =
     (case py_max (map (cake_length orc) agents) of Inl e \<Rightarrow> Inl e
      | Inr len \<Rightarrow>
          (let g_0_l = tiling_graph orc agents len partition_0_l partition_delta_l partition_0_l;
               g_delta_l = tiling_graph orc agents len partition_0_l partition_delta_l partition_delta_l;
               edges_set_0_l = fix_edges (max_weight_matching g_0_l);
               edges_set_delta_l = fix_edges (max_weight_matching g_delta_l)
           in case calculate_weight g_delta_l edges_set_delta_l of Inl e \<Rightarrow> Inl e
              | Inr w_delta \<Rightarrow>
                  (case calculate_weight g_0_l edges_set_0_l of Inl e \<Rightarrow> Inl e
                   | Inr w_0 \<Rightarrow> Inr (if w_delta > w_0 then edges_set_delta_l else edges_set_0_l))))"

definition equally_sized_pieces ::
  "'a valuation \<Rightarrow> ('a graph \<Rightarrow> 'a edge list) \<Rightarrow> 'a list \<Rightarrow> real \<Rightarrow> (error + 'a allocation) option" where
  "equally_sized_pieces orc max_weight_matching agents piece_size =
     (let num_of_agents = length agents in
      if num_of_agents = 0 then Some (Inl (ValueError ''There must be at least one agent''))
      else if \<not> (0 < piece_size \<and> piece_size \<le> 1)
        then Some (Inl (ValueError ''Piece size must be between 0 and 1''))
      else
        (let delta = 1 - of_int (py_int (1 / piece_size)) * piece_size in
         case create_partition piece_size 0 of None \<Rightarrow> None
         | Some partition_0_l \<Rightarrow>
             (case create_partition piece_size delta of None \<Rightarrow> None
              | Some partition_delta_l \<Rightarrow>
                  Some (case choose_heavier orc max_weight_matching agents
                               partition_0_l partition_delta_l of
                          Inl e \<Rightarrow> Inl e
                        | Inr edges_set \<Rightarrow> allocate edges_set))))"

subsection \<open>Algorithm 2: the discrete setting\<close>

text \<open>One level \<open>t\<close> of the loop: the coarsened partition, its graph, the matching the
  solver returns on it (in agent-first order) and the weight of that matching.\<close>

definition level_graph :: "'a valuation \<Rightarrow> 'a list \<Rightarrow> piece list \<Rightarrow> 'a graph" where
  "level_graph orc agents partition_i =
     create_matching_graph agents partition_i (evaluate orc agents partition_i)"

definition level_matching ::
  "'a valuation \<Rightarrow> ('a graph \<Rightarrow> 'a edge list) \<Rightarrow> 'a list \<Rightarrow> piece list \<Rightarrow> nat
     \<Rightarrow> error + (real \<times> 'a edge list)" where
  "level_matching orc max_weight_matching agents pieces t =
     (case change_partition pieces t of Inl e \<Rightarrow> Inl e
      | Inr partition_i \<Rightarrow>
          (let g_i = level_graph orc agents partition_i;
               edges_set = fix_edges (max_weight_matching g_i)
           in case calculate_weight g_i edges_set of Inl e \<Rightarrow> Inl e
              | Inr weight \<Rightarrow> Inr (weight, edges_set)))"

fun discrete_loop ::
  "'a valuation \<Rightarrow> ('a graph \<Rightarrow> 'a edge list) \<Rightarrow> 'a list \<Rightarrow> piece list \<Rightarrow> nat list
     \<Rightarrow> real \<times> 'a edge list option \<Rightarrow> error + (real \<times> 'a edge list option)" where
  "discrete_loop orc max_weight_matching agents pieces [] best = Inr best"
| "discrete_loop orc max_weight_matching agents pieces (t # ts) best =
     (case level_matching orc max_weight_matching agents pieces t of Inl e \<Rightarrow> Inl e
      | Inr (weight, edges_set) \<Rightarrow>
          discrete_loop orc max_weight_matching agents pieces ts
            (if weight > fst best then (weight, Some edges_set) else best))"

definition discrete_setting ::
  "'a valuation \<Rightarrow> ('a graph \<Rightarrow> 'a edge list) \<Rightarrow> 'a list \<Rightarrow> piece list \<Rightarrow> error + 'a allocation" where
  "discrete_setting orc max_weight_matching agents pieces =
     (let m = length pieces in
      case int_log2 m of Inl e \<Rightarrow> Inl e
      | Inr r \<Rightarrow>
          (case discrete_loop orc max_weight_matching agents pieces [0..<r + 1] (0, None) of
             Inl e \<Rightarrow> Inl e
           | Inr best \<Rightarrow>
               (case snd best of
                  None \<Rightarrow> Inl (TypeError ''NoneType object is not iterable'')
                | Some max_match \<Rightarrow> allocate max_match)))"

subsection \<open>Algorithm 3: the continuous setting\<close>

text \<open>\<^verbatim>\<open>random.choices(population, k=k)\<close>: \<open>k\<close> draws with replacement. The random
  source is the parameter \<open>rnd\<close>; its \<open>i\<close>-th draw selects the element at position
  \<open>rnd i mod n\<close>. Drawing from an empty population raises IndexError.\<close>

definition choices :: "(nat \<Rightarrow> nat) \<Rightarrow> 'b list \<Rightarrow> nat \<Rightarrow> error + 'b list" where
  "choices rnd population k =
     (if 0 < k \<and> population = [] then Inl (IndexError ''Cannot choose from an empty sequence'')
      else Inr (map (\<lambda>i. population ! (rnd i mod length population)) [0..<k]))"

text \<open>The inner loop \<^verbatim>\<open>for i in range(0, 2*n)\<close> for one agent of \<open>S\<close>; \<open>v\<close> is
  \<^verbatim>\<open>a.cake_value()/(2*n)\<close> and \<open>k\<close> the number of iterations left.\<close>

fun mark_loop :: "'a valuation \<Rightarrow> 'a \<Rightarrow> real \<Rightarrow> nat \<Rightarrow> real \<Rightarrow> real list \<Rightarrow> real list" where
  "mark_loop orc a v 0 start partitions = partitions"
| "mark_loop orc a v (Suc k) start partitions =
     (case mark orc a start v of
        None \<Rightarrow> partitions
      | Some stop \<Rightarrow>
          (let stop = round4 stop
           in mark_loop orc a v k stop (set_add stop partitions)))"

text \<open>The loop that turns the sorted boundaries into pieces.\<close>

fun pieces_loop :: "real \<Rightarrow> real list \<Rightarrow> piece list \<Rightarrow> piece list" where
  "pieces_loop start [] pieces = pieces"
| "pieces_loop start (part # rest) pieces = pieces_loop part rest (pieces @ [(start, part)])"

definition continuous_setting ::
  "'a valuation \<Rightarrow> ('a graph \<Rightarrow> 'a edge list) \<Rightarrow> (nat \<Rightarrow> nat) \<Rightarrow> 'a list
     \<Rightarrow> error + 'a allocation" where
  "continuous_setting orc max_weight_matching rnd agents =
     (let n = length agents in
      case choices rnd agents (n div 2) of Inl e \<Rightarrow> Inl e
      | Inr s \<Rightarrow>
          (let partitions =
                 fold (\<lambda>a partitions.
                         mark_loop orc a (cake_value orc a / (2 * real n)) (2 * n) 0 partitions)
                   s (set_add 0 []);
               partitions = sort partitions
           in case partitions of
                [] \<Rightarrow> Inl (IndexError ''list index out of range'')
              | start # rest \<Rightarrow>
                  (let pieces = pieces_loop start rest [];
                       agents = filter (\<lambda>a. a \<notin> set s) (fold set_add agents [])
                   in discrete_setting orc max_weight_matching agents pieces)))"

subsection \<open>Notions used to state the properties\<close>

text \<open>The solver's contract, as far as the algorithms rely on it: the edges it returns
  (in either orientation) are edges of the graph, no edge is returned twice, and no node
  is an endpoint of two returned edges.\<close>

definition touches :: "'a edge \<Rightarrow> 'a edge \<Rightarrow> bool" where
  "touches e e' = (fst e = fst e' \<or> fst e = snd e' \<or> snd e = fst e' \<or> snd e = snd e')"

definition is_matching :: "'a graph \<Rightarrow> 'a edge list \<Rightarrow> bool" where
  "is_matching g es =
     (distinct es \<and>
      (\<forall>e \<in> set es. get_edge_data g (fst e) (snd e) \<noteq> None \<or> get_edge_data g (snd e) (fst e) \<noteq> None) \<and>
      (\<forall>e \<in> set es. \<forall>e' \<in> set es. e \<noteq> e' \<longrightarrow> \<not> touches e e'))"

text \<open>A solver that meets this contract on every graph (it keeps each edge that touches
  none of the edges kept before); it stands in for the external solver where a property
  is run on an example.\<close>

definition first_fit :: "'a graph \<Rightarrow> 'a edge list" where
  "first_fit g =
     fold (\<lambda>e acc. if \<exists>e' \<in> set acc. touches e e' then acc else acc @ [e]) (map fst (adj g)) []"

text \<open>Modelled from the spec: the agents of the docstring examples,
  \<^verbatim>\<open>PiecewiseConstantAgent(values, name)\<close> of \<^verbatim>\<open>agents.py\<close>, which is not among the sources.
  The value density is \<open>values[i]\<close> on \<open>[i, i + 1)\<close>; \<open>eval\<close> is the value of a range,
  additive over disjoint ranges, \<open>mark\<close> the smallest position that ends a range of the
  wanted value (none when the cake is exhausted first). They are used in examples only;
  in the properties the agents' answers are arbitrary.\<close>

fun pc_eval :: "real list \<Rightarrow> real \<Rightarrow> real \<Rightarrow> real" where
  "pc_eval [] s e = 0"
| "pc_eval (v # vs) s e = v * max 0 (min e 1 - max s 0) + pc_eval vs (s - 1) (e - 1)"

fun pc_mark :: "real list \<Rightarrow> real \<Rightarrow> real \<Rightarrow> real \<Rightarrow> real option" where
  "pc_mark [] off s target = None"
| "pc_mark (v # vs) off s target =
     (if off + 1 \<le> s then pc_mark vs (off + 1) s target
      else (let from = max s off; avail = v * (off + 1 - from)
            in if 0 < v \<and> target \<le> avail then Some (from + target / v)
               else pc_mark vs (off + 1) s (target - avail)))"

definition piecewise_constant :: "(string \<times> real list) valuation" where
  "piecewise_constant =
     \<lparr>eval = (\<lambda>a s e. pc_eval (snd a) s e),
      mark = (\<lambda>a s target. pc_mark (snd a) 0 s target),
      cake_length = (\<lambda>a. real (length (snd a))),
      cake_value = (\<lambda>a. sum_list (snd a))\<rparr>"

text \<open>The pieces formed from consecutive boundaries, and the rounded positions one
  probing agent reports: at most \<open>k\<close> of them, each found from the previous one.\<close>

definition consecutive :: "real list \<Rightarrow> piece list" where
  "consecutive bs = zip bs (tl bs)"

fun probe_marks :: "'a valuation \<Rightarrow> 'a \<Rightarrow> real \<Rightarrow> nat \<Rightarrow> real \<Rightarrow> real list" where
  "probe_marks orc a v 0 start = []"
| "probe_marks orc a v (Suc k) start =
     (case mark orc a start v of
        None \<Rightarrow> []
      | Some stop \<Rightarrow> round4 stop # probe_marks orc a v k (round4 stop))"

text \<open>What an allocation gives, valued by the agents themselves.\<close>

definition entry_weight :: "'a valuation \<Rightarrow> 'a node \<times> 'a node list option \<Rightarrow> real" where
  "entry_weight orc x =
     (case x of
        (AgentNode a, Some ps) \<Rightarrow>
          sum_list (map (\<lambda>q. case q of PieceNode p \<Rightarrow> eval orc a (fst p) (snd p) | _ \<Rightarrow> 0) ps)
      | _ \<Rightarrow> 0)"

definition allocation_weight :: "'a valuation \<Rightarrow> 'a allocation \<Rightarrow> real" where
  "allocation_weight orc al = sum_list (map (entry_weight orc) (zip (alloc_agents al) (alloc_pieces al)))"

text \<open>The body of the loop of \<^verbatim>\<open>fix_edges\<close> on one edge, and the graph edge that
  \<^verbatim>\<open>create_matching_graph\<close> adds for a key of the evaluations.\<close>

definition fix_edge :: "'a edge \<Rightarrow> 'a edge" where
  "fix_edge e = (if \<not> is_agent (fst e) then (snd e, fst e) else (fst e, snd e))"

definition edge_of :: "('a \<times> piece) \<Rightarrow> 'a edge" where
  "edge_of k = (AgentNode (fst k), PieceNode (snd k))"

text \<open>An allocation built from the matching \<open>M\<close>: the chosen agents are the agents of
  \<open>M\<close> and nobody else, they are pairwise distinct and among the given agents, the
  agent of the \<open>i\<close>-th edge holds exactly the piece of that edge, and no two agents hold
  the same piece.\<close>

definition well_allocated :: "'a list \<Rightarrow> 'a edge list \<Rightarrow> 'a allocation \<Rightarrow> bool" where
  "well_allocated agents M al =
     (alloc_agents al = map fst M
      \<and> distinct (alloc_agents al)
      \<and> length (alloc_pieces al) = length (alloc_agents al)
      \<and> (\<forall>i < length M. \<exists>a p. M ! i = (AgentNode a, PieceNode p) \<and> a \<in> set agents
             \<and> alloc_agents al ! i = AgentNode a \<and> alloc_pieces al ! i = Some [PieceNode p])
      \<and> (\<forall>i < length M. \<forall>j < length M. i \<noteq> j \<longrightarrow> alloc_pieces al ! i \<noteq> alloc_pieces al ! j))"

section \<open>Properties\<close>

subsection \<open>Coarsening a partition\<close>

lemma py_range_multiples:
  assumes k: "0 < k" and i: "i \<le> m div k"
  shows "py_range (int (i * k)) (int m - int k + 1) (int k) = map (\<lambda>j. int (j * k)) [i..<m div k]"
  using i
proof (induction "m div k - i" arbitrary: i)
  case 0
  then have eq: "i = m div k" by simp
  have "m < (m div k) * k + k"
    using k by (metis add.commute dividend_less_div_times mult.commute)
  then have "int m < int ((m div k) * k + k)" by (simp only: of_nat_less_iff)
  then have "\<not> int (i * k) < int m - int k + 1" using eq by simp
  then show ?case using eq by (subst py_range.simps) simp
next
  case (Suc d)
  then have lt: "i < m div k" by simp
  then have "Suc i * k \<le> m" using k
    by (metis Suc_leI div_mult_self_is_m le_div_geq less_eq_div_iff_mult_less_eq mult.commute nat_le_linear)
  then have "int (Suc i * k) \<le> int m" by (simp only: of_nat_le_iff)
  then have c: "int (i * k) < int m - int k + 1" by (simp add: algebra_simps)
  have step: "int (i * k) + int k = int (Suc i * k)" by (simp add: algebra_simps)
  have d: "d = m div k - Suc i" using Suc.hyps(2) by simp
  have le: "Suc i \<le> m div k" using lt by simp
  note IH = Suc.hyps(1) [OF d le]
  have "py_range (int (i * k)) (int m - int k + 1) (int k) =
        int (i * k) # py_range (int (i * k) + int k) (int m - int k + 1) (int k)"
    using c k by (subst py_range.simps) simp
  also have "\<dots> = int (i * k) # map (\<lambda>j. int (j * k)) [Suc i..<m div k]"
    by (simp only: step IH)
  also have "\<dots> = map (\<lambda>j. int (j * k)) [i..<m div k]"
    using lt by (simp add: upt_conv_Cons)
  finally show ?case .
qed

lemma change_partition_loop_in_range:
  assumes "\<forall>s \<in> set starts. 0 \<le> s \<and> s + 2 ^ t - 1 < int (length pieces)"
  shows "change_partition_loop pieces t starts ret =
         Inr (ret @ map (\<lambda>s. (fst (pieces ! nat s), snd (pieces ! nat (s + 2 ^ t - 1)))) starts)"
  using assms
proof (induction starts arbitrary: ret)
  case Nil
  then show ?case by simp
next
  case (Cons s starts)
  then have s: "0 \<le> s" "s + 2 ^ t - 1 < int (length pieces)" by simp_all
  have s2: "0 \<le> s + 2 ^ t - 1" using s(1) by (smt (verit) one_le_power)
  have s3: "s < int (length pieces)" using s(2) s2 by (smt (verit) one_le_power)
  show ?case using Cons s s2 s3 by (simp add: py_get_def Let_def)
qed

lemma change_partition_eq:
  "change_partition pieces t =
     Inr (map (\<lambda>i. (fst (pieces ! (i * 2 ^ t)), snd (pieces ! ((i + 1) * 2 ^ t - 1))))
            [0..<length pieces div 2 ^ t])"
proof -
  let ?k = "2 ^ t :: nat" and ?m = "length pieces"
  have r: "py_range 0 (int ?m - 2 ^ t + 1) (2 ^ t) = map (\<lambda>j. int (j * ?k)) [0..<?m div ?k]"
    using py_range_multiples [of ?k 0 ?m] by simp
  have inr: "\<forall>s \<in> set (map (\<lambda>j. int (j * ?k)) [0..<?m div ?k]). 0 \<le> s \<and> s + 2 ^ t - 1 < int ?m"
  proof
    fix s assume "s \<in> set (map (\<lambda>j. int (j * ?k)) [0..<?m div ?k])"
    then obtain j where j: "j < ?m div ?k" "s = int (j * ?k)" by auto
    then have "Suc j * ?k \<le> ?m"
      by (metis Suc_leI div_mult_self_is_m le_div_geq less_eq_div_iff_mult_less_eq mult.commute nat_le_linear zero_less_numeral zero_less_power)
    then have "int (Suc j * ?k) \<le> int ?m" by (simp only: of_nat_le_iff)
    then have "int (j * ?k) + int ?k \<le> int ?m" by (simp add: algebra_simps)
    then show "0 \<le> s \<and> s + 2 ^ t - 1 < int ?m" using j by simp
  qed
  have idx: "nat (int (j * ?k) + 2 ^ t - 1) = (j + 1) * ?k - 1" for j
  proof -
    have "0 < (j + 1) * ?k" by simp
    then have "1 \<le> (j + 1) * ?k" by linarith
    then have "int ((j + 1) * ?k - 1) = int ((j + 1) * ?k) - 1" by (simp only: of_nat_diff of_nat_1)
    also have "\<dots> = int (j * ?k) + 2 ^ t - 1" by (simp add: algebra_simps)
    finally have "int ((j + 1) * ?k - 1) = int (j * ?k) + 2 ^ t - 1" .
    then have "nat (int ((j + 1) * ?k - 1)) = nat (int (j * ?k) + 2 ^ t - 1)" by (rule arg_cong)
    then show ?thesis by (simp only: nat_int)
  qed
  have m: "map (\<lambda>s. (fst (pieces ! nat s), snd (pieces ! nat (s + 2 ^ t - 1))))
             (map (\<lambda>j. int (j * ?k)) [0..<?m div ?k]) =
           map (\<lambda>i. (fst (pieces ! (i * 2 ^ t)), snd (pieces ! ((i + 1) * 2 ^ t - 1))))
             [0..<?m div ?k]"
    unfolding map_map o_def by (simp only: idx nat_int)
  have "change_partition pieces t =
        change_partition_loop pieces t (map (\<lambda>j. int (j * ?k)) [0..<?m div ?k]) []"
    unfolding change_partition_def by (simp only: r)
  also have "\<dots> = Inr ([] @ map (\<lambda>s. (fst (pieces ! nat s), snd (pieces ! nat (s + 2 ^ t - 1))))
             (map (\<lambda>j. int (j * ?k)) [0..<?m div ?k]))"
    by (rule change_partition_loop_in_range [OF inr])
  finally show ?thesis by (simp only: m append_Nil)
qed

text \<open>
  C4. For every partition of length \<open>m\<close> and every natural number \<open>t\<close>,
  \<^verbatim>\<open>change_partition\<close> returns (it raises nothing) exactly \<open>m div 2 ^ t\<close> pieces; the
  \<open>i\<close>-th output piece runs from the start of input piece \<open>i * 2 ^ t\<close> to the end of
  input piece \<open>(i + 1) * 2 ^ t - 1\<close>, both of which exist, so that it spans \<open>2 ^ t\<close>
  consecutive input pieces; the input pieces not covered are the last \<open>m mod 2 ^ t\<close>.
\<close>

theorem change_partition_coarsens:
  "\<exists>out. change_partition pieces t = Inr out
     \<and> length out = length pieces div 2 ^ t
     \<and> (\<forall>i < length out.
            out ! i = (fst (pieces ! (i * 2 ^ t)), snd (pieces ! ((i + 1) * 2 ^ t - 1)))
            \<and> (i + 1) * 2 ^ t - 1 < length pieces)
     \<and> length pieces - length out * 2 ^ t = length pieces mod 2 ^ t"
proof -
  let ?k = "2 ^ t :: nat" and ?m = "length pieces"
  let ?out = "map (\<lambda>i. (fst (pieces ! (i * ?k)), snd (pieces ! ((i + 1) * ?k - 1)))) [0..<?m div ?k]"
  have in_range: "(i + 1) * ?k - 1 < ?m" if "i < ?m div ?k" for i
  proof -
    have "Suc i \<le> ?m div ?k" using that by simp
    then have "Suc i * ?k \<le> ?m" by (simp add: less_eq_div_iff_mult_less_eq)
    moreover have "0 < Suc i * ?k" by simp
    ultimately have "Suc i * ?k - 1 < ?m" by linarith
    then show ?thesis by simp
  qed
  have dropped: "?m - (?m div ?k) * ?k = ?m mod ?k"
    by (simp add: minus_div_mult_eq_mod)
  show ?thesis
  proof (intro exI conjI)
    show "change_partition pieces t = Inr ?out" by (rule change_partition_eq)
    show "length ?out = ?m div ?k" by simp
    show "\<forall>i < length ?out.
            ?out ! i = (fst (pieces ! (i * 2 ^ t)), snd (pieces ! ((i + 1) * 2 ^ t - 1)))
            \<and> (i + 1) * 2 ^ t - 1 < length pieces"
      using in_range by simp
    show "?m - length ?out * ?k = ?m mod ?k" using dropped by simp
  qed
qed

theorem change_partition_coarsens_witness:
  "\<exists>out. change_partition [(0, 1), (1, 2), (2, 3), (3, 4), (4, 5)] 1 = Inr out
     \<and> length out = 2 \<and> out ! 0 = (0, 2) \<and> out ! 1 = (2, 4)
     \<and> 5 - length out * 2 = (1::nat)"
proof -
  from change_partition_coarsens [of "[(0, 1), (1, 2), (2, 3), (3, 4), (4, 5)]" 1]
  obtain out where o: "change_partition [(0, 1), (1, 2), (2, 3), (3, 4), (4, 5)] 1 = Inr out"
    and l: "length out = length [(0::real, 1::real), (1, 2), (2, 3), (3, 4), (4, 5)] div 2 ^ 1"
    and p: "\<forall>i < length out.
              out ! i = (fst ([(0::real, 1::real), (1, 2), (2, 3), (3, 4), (4, 5)] ! (i * 2 ^ 1)),
                         snd ([(0::real, 1::real), (1, 2), (2, 3), (3, 4), (4, 5)] ! ((i + 1) * 2 ^ 1 - 1)))
              \<and> (i + 1) * 2 ^ 1 - 1 < length [(0::real, 1::real), (1, 2), (2, 3), (3, 4), (4, 5)]"
    by blast
  have l2: "length out = 2" using l by simp
  have "out ! 0 = (0, 2)" using p l2 by simp
  moreover have "out ! 1 = (2, 4)" using p l2 by simp
  ultimately show ?thesis using o l2 by simp
qed

subsection \<open>Building a partition\<close>

lemma create_partition_loop_steps:
  assumes "1 < stop + real k * sz" and "\<forall>i<k. stop + real i * sz \<le> 1"
  shows "create_partition_loop sz (stop - sz) stop res =
         Some (res @ map (\<lambda>i. (stop - sz + real i * sz, stop + real i * sz)) [0..<k])"
  using assms
proof (induction k arbitrary: stop res)
  case 0
  then have "\<not> stop \<le> 1" by simp
  then show ?case by (subst create_partition_loop.simps) simp
next
  case (Suc k)
  have le: "stop \<le> 1" using Suc.prems(2) by force
  have a: "1 < (stop + sz) + real k * sz" using Suc.prems(1) by (simp add: algebra_simps)
  have b: "\<forall>i<k. (stop + sz) + real i * sz \<le> 1"
  proof (intro allI impI)
    fix i assume "i < k"
    then have "stop + real (Suc i) * sz \<le> 1" using Suc.prems(2) by blast
    then show "(stop + sz) + real i * sz \<le> 1" by (simp add: algebra_simps)
  qed
  have IH: "create_partition_loop sz stop (stop + sz) (res @ [(stop - sz, stop)]) =
        Some ((res @ [(stop - sz, stop)]) @
              map (\<lambda>i. (stop + sz - sz + real i * sz, stop + sz + real i * sz)) [0..<k])"
    using Suc.IH [OF a b, of "res @ [(stop - sz, stop)]"] by simp
  have shift: "map (\<lambda>i. (stop - sz + real i * sz, stop + real i * sz)) [0..<Suc k] =
        (stop - sz, stop) # map (\<lambda>i. (stop + sz - sz + real i * sz, stop + sz + real i * sz)) [0..<k]"
  proof -
    have u: "[0..<Suc k] = 0 # map Suc [0..<k]"
      by (simp add: upt_conv_Cons map_Suc_upt del: upt_Suc)
    show ?thesis unfolding u by (simp add: o_def algebra_simps)
  qed
  have "create_partition_loop sz (stop - sz) stop res =
        create_partition_loop sz stop (stop + sz) (res @ [(stop - sz, stop)])"
    using le by (subst create_partition_loop.simps) simp
  then show ?case unfolding IH shift by simp
qed

lemma steps_exist:
  assumes "0 < (sz::real)"
  shows "\<exists>k. 1 < stop + real k * sz \<and> (\<forall>i<k. stop + real i * sz \<le> 1)"
proof (cases "stop \<le> 1")
  case False
  then have "1 < stop + real 0 * sz \<and> (\<forall>i<(0::nat). stop + real i * sz \<le> 1)" by simp
  then show ?thesis by blast
next
  case True
  define q where "q = (1 - stop) / sz"
  have q0: "0 \<le> q" using True assms by (simp add: q_def)
  define k where "k = nat \<lfloor>q\<rfloor> + 1"
  have "q < real k" unfolding k_def using q0 by linarith
  then have "(1 - stop) < real k * sz" using assms by (simp add: q_def pos_divide_less_eq)
  then have A: "1 < stop + real k * sz" by simp
  have B: "\<forall>i<k. stop + real i * sz \<le> 1"
  proof (intro allI impI)
    fix i assume "i < k"
    then have "real i \<le> q" unfolding k_def using q0 by linarith
    then have "real i * sz \<le> 1 - stop" using assms by (simp add: q_def pos_le_divide_eq)
    then show "stop + real i * sz \<le> 1" by simp
  qed
  from A B show ?thesis by blast
qed

lemma create_partition_closed_form:
  assumes "0 < sz"
  shows "\<exists>n. create_partition sz start =
               Some (map (\<lambda>i. (start + real i * sz, start + real (i + 1) * sz)) [0..<n])
             \<and> (\<forall>i<n. start + real (i + 1) * sz \<le> 1)
             \<and> 1 < start + real (n + 1) * sz"
proof -
  obtain k where k: "1 < (start + sz) + real k * sz" "\<forall>i<k. (start + sz) + real i * sz \<le> 1"
    using steps_exist [OF assms, of "start + sz"] by blast
  have "create_partition sz start =
        Some ([] @ map (\<lambda>i. (start + sz - sz + real i * sz, start + sz + real i * sz)) [0..<k])"
    unfolding create_partition_def
    using create_partition_loop_steps [OF k, of "[]"] by simp
  then have 1: "create_partition sz start =
        Some (map (\<lambda>i. (start + real i * sz, start + real (i + 1) * sz)) [0..<k])"
    by (simp add: algebra_simps)
  have 2: "\<forall>i<k. start + real (i + 1) * sz \<le> 1"
    using k(2) by (simp add: algebra_simps)
  have 3: "1 < start + real (k + 1) * sz"
    using k(1) by (simp add: algebra_simps)
  from 1 2 3 show ?thesis by blast
qed



subsection \<open>Allocations, weights and the input checks of Algorithm 1\<close>

lemma py_index_member:
  "x \<in> set xs \<Longrightarrow> \<exists>i. py_index xs x = Inr i \<and> i < length xs \<and> xs ! i = x"
proof (induction xs)
  case Nil
  then show ?case by simp
next
  case (Cons y ys)
  show ?case
  proof (cases "y = x")
    case True
    then show ?thesis by simp
  next
    case False
    then have "x \<in> set ys" using Cons.prems by simp
    then obtain i where "py_index ys x = Inr i" "i < length ys" "ys ! i = x"
      using Cons.IH by blast
    then show ?thesis using False by simp
  qed
qed

lemma py_index_distinct:
  "distinct xs \<Longrightarrow> i < length xs \<Longrightarrow> py_index xs (xs ! i) = Inr i"
proof (induction xs arbitrary: i)
  case Nil
  then show ?case by simp
next
  case (Cons y ys)
  show ?case
  proof (cases i)
    case 0
    then show ?thesis by simp
  next
    case (Suc j)
    then have j: "j < length ys" using Cons.prems by simp
    then have "ys ! j \<in> set ys" by simp
    then have "y \<noteq> ys ! j" using Cons.prems(1) by auto
    moreover have "py_index ys (ys ! j) = Inr j" using Cons.IH Cons.prems(1) j by simp
    ultimately show ?thesis using Suc by simp
  qed
qed

lemma set_pieces_returns:
  "fst ` set es \<subseteq> set chosen \<Longrightarrow> \<exists>al'. set_pieces chosen es al = Inr al'"
proof (induction es arbitrary: al)
  case Nil
  then show ?case by simp
next
  case (Cons e es)
  then have "fst e \<in> set chosen" by simp
  then obtain i where "py_index chosen (fst e) = Inr i" using py_index_member by fast
  then show ?case using Cons by simp
qed

lemma allocate_returns: "\<exists>al. allocate es = Inr al"
  unfolding allocate_def Let_def by (rule set_pieces_returns) simp

lemma set_pieces_distinct:
  assumes "distinct chosen" and "chosen = map fst (done @ es)"
  shows "set_pieces chosen es
           \<lparr>alloc_agents = chosen,
            alloc_pieces = map (\<lambda>e. Some [snd e]) done @ replicate (length es) None\<rparr> =
         Inr \<lparr>alloc_agents = chosen, alloc_pieces = map (\<lambda>e. Some [snd e]) (done @ es)\<rparr>"
  using assms
proof (induction es arbitrary: "done")
  case Nil
  then show ?case by simp
next
  case (Cons e es)
  have len: "length done < length chosen" using Cons.prems(2) by simp
  have "chosen ! length done = fst e" using Cons.prems(2) by (simp add: nth_append)
  then have idx: "py_index chosen (fst e) = Inr (length done)"
    using py_index_distinct [OF Cons.prems(1) len] by simp
  have upd: "(map (\<lambda>e. Some [snd e]) done @ replicate (length (e # es)) None)[length done := Some [snd e]] =
             map (\<lambda>e. Some [snd e]) (done @ [e]) @ replicate (length es) None"
    by (simp add: list_update_append)
  have "chosen = map fst ((done @ [e]) @ es)" using Cons.prems(2) by simp
  from Cons.IH [OF Cons.prems(1) this] show ?case
    using idx upd by (simp add: set_piece_def)
qed

lemma allocate_distinct:
  assumes "distinct (map fst es)"
  shows "allocate es = Inr \<lparr>alloc_agents = map fst es, alloc_pieces = map (\<lambda>e. Some [snd e]) es\<rparr>"
  using set_pieces_distinct [OF assms, of "[]" es]
  by (simp add: allocate_def Allocation_def)

lemma calculate_weight_loop_error:
  "calculate_weight_loop g es acc = Inl e \<Longrightarrow> e = TypeError ''NoneType object is not subscriptable''"
  by (induction es arbitrary: acc) (auto split: option.splits)

lemma calculate_weight_error:
  "calculate_weight g es = Inl e \<Longrightarrow> e = TypeError ''NoneType object is not subscriptable''"
  unfolding calculate_weight_def by (rule calculate_weight_loop_error)

lemma choose_heavier_error:
  assumes "agents \<noteq> []" and "choose_heavier orc mwm agents p0 pd = Inl e"
  shows "e = TypeError ''NoneType object is not subscriptable''"
proof -
  obtain a as where "agents = a # as" using assms(1) by (cases agents) auto
  then show ?thesis
    using assms(2) unfolding choose_heavier_def Let_def
    by (auto split: sum.splits dest: calculate_weight_error)
qed

lemma create_partition_returns: "0 < sz \<Longrightarrow> \<exists>ps. create_partition sz start = Some ps"
  using create_partition_closed_form by blast

lemma create_partition_loop_diverges:
  assumes "create_partition_loop sz start stop res = Some y"
  shows "\<not> (sz \<le> 0 \<and> stop \<le> 1)"
proof (rule create_partition_loop.raw_induct
    [where P = "\<lambda>sz start stop res y. \<not> (sz \<le> 0 \<and> stop \<le> 1)", OF _ assms])
  fix f :: "real \<Rightarrow> real \<Rightarrow> real \<Rightarrow> piece list \<Rightarrow> piece list option"
    and a b c :: real and d z :: "piece list"
  assume IH: "\<And>a b c d y. f a b c d = Some y \<Longrightarrow> \<not> (a \<le> 0 \<and> c \<le> 1)"
    and body: "(if c \<le> 1 then f a c (c + a) (d @ [(b, c)]) else Some d) = Some z"
  show "\<not> (a \<le> 0 \<and> c \<le> 1)"
  proof
    assume h: "a \<le> 0 \<and> c \<le> 1"
    then have "f a c (c + a) (d @ [(b, c)]) = Some z" using body by simp
    then have "\<not> (a \<le> 0 \<and> c + a \<le> 1)" by (rule IH)
    then show False using h by auto
  qed
qed

lemma create_partition_diverges: "sz \<le> 0 \<Longrightarrow> start + sz \<le> 1 \<Longrightarrow> create_partition sz start = None"
  unfolding create_partition_def using create_partition_loop_diverges by fastforce

text \<open>
  C8. \<^verbatim>\<open>equally_sized_pieces\<close> raises ValueError (the InvalidInput of the specification)
  exactly when the agent list is empty or the piece size is outside \<open>(0, 1]\<close>. On such an
  input the outcome does not depend on the agents' answers nor on the solver: the check
  comes before any partition is built and before any query. The call always returns (an
  allocation or an exception), although building the tiling first would not return for a
  piece size \<open>\<le> 0\<close>. For a non-empty agent list and a piece size in \<open>(0, 1]\<close> no
  ValueError is raised.
\<close>

theorem equally_sized_pieces_invalid_input:
  "((\<exists>msg. equally_sized_pieces orc mwm agents piece_size = Some (Inl (ValueError msg)))
      = (agents = [] \<or> \<not> (0 < piece_size \<and> piece_size \<le> 1)))
   \<and> (agents = [] \<or> \<not> (0 < piece_size \<and> piece_size \<le> 1) \<longrightarrow>
        equally_sized_pieces orc mwm agents piece_size =
        equally_sized_pieces orc' mwm' agents piece_size)
   \<and> equally_sized_pieces orc mwm agents piece_size \<noteq> None
   \<and> (piece_size \<le> 0 \<longrightarrow> create_partition piece_size 0 = None)"
proof (intro conjI)
  show "(\<exists>msg. equally_sized_pieces orc mwm agents piece_size = Some (Inl (ValueError msg)))
      = (agents = [] \<or> \<not> (0 < piece_size \<and> piece_size \<le> 1))"
  proof
    assume "agents = [] \<or> \<not> (0 < piece_size \<and> piece_size \<le> 1)"
    then show "\<exists>msg. equally_sized_pieces orc mwm agents piece_size = Some (Inl (ValueError msg))"
      unfolding equally_sized_pieces_def Let_def by auto
  next
    assume v: "\<exists>msg. equally_sized_pieces orc mwm agents piece_size = Some (Inl (ValueError msg))"
    show "agents = [] \<or> \<not> (0 < piece_size \<and> piece_size \<le> 1)"
    proof (rule ccontr)
      assume "\<not> (agents = [] \<or> \<not> (0 < piece_size \<and> piece_size \<le> 1))"
      then have ok: "agents \<noteq> []" "0 < piece_size" "piece_size \<le> 1" by auto
      obtain p0 where p0: "create_partition piece_size 0 = Some p0"
        using create_partition_returns [OF ok(2)] by blast
      obtain pd where pd: "create_partition piece_size (1 - of_int (py_int (1 / piece_size)) * piece_size) = Some pd"
        using create_partition_returns [OF ok(2)] by blast
      have eq: "equally_sized_pieces orc mwm agents piece_size =
            Some (case choose_heavier orc mwm agents p0 pd of Inl e \<Rightarrow> Inl e | Inr edges_set \<Rightarrow> allocate edges_set)"
        using ok p0 pd unfolding equally_sized_pieces_def Let_def by simp
      from v obtain msg where
        m: "(case choose_heavier orc mwm agents p0 pd of Inl e \<Rightarrow> Inl e | Inr edges_set \<Rightarrow> allocate edges_set)
              = Inl (ValueError msg)"
        unfolding eq by auto
      show False
      proof (cases "choose_heavier orc mwm agents p0 pd")
        case (Inl e)
        then show ?thesis using m choose_heavier_error [OF ok(1) Inl] by simp
      next
        case (Inr es)
        then show ?thesis using m allocate_returns [of es] by auto
      qed
    qed
  qed
  show "agents = [] \<or> \<not> (0 < piece_size \<and> piece_size \<le> 1) \<longrightarrow>
        equally_sized_pieces orc mwm agents piece_size =
        equally_sized_pieces orc' mwm' agents piece_size"
    unfolding equally_sized_pieces_def Let_def by auto
  show "equally_sized_pieces orc mwm agents piece_size \<noteq> None"
  proof (cases "agents = [] \<or> \<not> (0 < piece_size \<and> piece_size \<le> 1)")
    case True
    then show ?thesis unfolding equally_sized_pieces_def Let_def by auto
  next
    case False
    then have ok: "agents \<noteq> []" "0 < piece_size" "piece_size \<le> 1" by auto
    obtain p0 where p0: "create_partition piece_size 0 = Some p0"
      using create_partition_returns [OF ok(2)] by blast
    obtain pd where pd: "create_partition piece_size (1 - of_int (py_int (1 / piece_size)) * piece_size) = Some pd"
      using create_partition_returns [OF ok(2)] by blast
    show ?thesis using ok p0 pd unfolding equally_sized_pieces_def Let_def by simp
  qed
  show "piece_size \<le> 0 \<longrightarrow> create_partition piece_size 0 = None"
    using create_partition_diverges [of piece_size 0] by simp
qed

theorem equally_sized_pieces_invalid_input_witness:
  "equally_sized_pieces piecewise_constant first_fit [] (1 / 2) =
     Some (Inl (ValueError ''There must be at least one agent''))
   \<and> equally_sized_pieces piecewise_constant first_fit [(''Alice'', [100, 1])] 2 =
     Some (Inl (ValueError ''Piece size must be between 0 and 1''))
   \<and> (\<nexists>msg. equally_sized_pieces piecewise_constant first_fit
              [(''Alice'', [100, 1]), (''Bob'', [2, 90])] (1 / 2) = Some (Inl (ValueError msg)))
   \<and> equally_sized_pieces piecewise_constant first_fit
              [(''Alice'', [100, 1]), (''Bob'', [2, 90])] (1 / 2) \<noteq> None
   \<and> create_partition (- 1) 0 = None"
proof -
  note t = equally_sized_pieces_invalid_input
    [of piecewise_constant first_fit "[(''Alice'', [100, 1]), (''Bob'', [2, 90])]" "1 / 2"
        piecewise_constant first_fit]
  note u = equally_sized_pieces_invalid_input
    [of piecewise_constant first_fit "[]" "- 1" piecewise_constant first_fit]
  have 1: "equally_sized_pieces piecewise_constant first_fit [] (1 / 2) =
     Some (Inl (ValueError ''There must be at least one agent''))"
    by (simp add: equally_sized_pieces_def)
  have 2: "equally_sized_pieces piecewise_constant first_fit [(''Alice'', [100, 1])] 2 =
     Some (Inl (ValueError ''Piece size must be between 0 and 1''))"
    by (simp add: equally_sized_pieces_def)
  have 3: "\<nexists>msg. equally_sized_pieces piecewise_constant first_fit
              [(''Alice'', [100, 1]), (''Bob'', [2, 90])] (1 / 2) = Some (Inl (ValueError msg))"
    using t by simp
  have 4: "equally_sized_pieces piecewise_constant first_fit
              [(''Alice'', [100, 1]), (''Bob'', [2, 90])] (1 / 2) \<noteq> None"
    using t by blast
  have 5: "create_partition (- 1) 0 = None" using u by simp
  from 1 2 3 4 5 show ?thesis by blast
qed

subsection \<open>Sets as lists\<close>

lemma set_set_add [simp]: "set (set_add x s) = insert x (set s)"
  by (auto simp: set_add_def)

lemma distinct_set_add [simp]: "distinct (set_add x s) = distinct s"
  by (auto simp: set_add_def)

lemma set_fold_set_add:
  "set (fold (\<lambda>x. set_add (f x)) xs acc) = set acc \<union> f ` set xs"
  by (induction xs arbitrary: acc) auto

lemma distinct_fold_set_add:
  "distinct acc \<Longrightarrow> distinct (fold (\<lambda>x. set_add (f x)) xs acc)"
  by (induction xs arbitrary: acc) auto

lemma fix_edges_fold: "fix_edges es = fold (\<lambda>e. set_add (fix_edge e)) es []"
proof -
  have "(\<lambda>edge ret. if \<not> is_agent (fst edge) then set_add (snd edge, fst edge) ret
                     else set_add (fst edge, snd edge) ret) = (\<lambda>e. set_add (fix_edge e))"
    by (intro ext) (simp add: fix_edge_def)
  then show ?thesis unfolding fix_edges_def by (rule arg_cong [where f = "\<lambda>f. fold f es []"])
qed

lemma set_fix_edges: "set (fix_edges es) = fix_edge ` set es"
  by (simp add: fix_edges_fold set_fold_set_add)

lemma distinct_fix_edges: "distinct (fix_edges es)"
  by (simp add: fix_edges_fold distinct_fold_set_add)

subsection \<open>The edges of the graph\<close>

lemma adj_add_node [simp]: "adj (add_node n g) = adj g"
  by (simp add: add_node_def)

lemma adj_fold_add_node [simp]: "adj (fold (\<lambda>x. add_node (f x)) xs g) = adj g"
  by (induction xs arbitrary: g) auto

lemma adj_add_edge [simp]: "adj (add_edge u v w g) = AList.update (u, v) w (adj g)"
  by (simp add: add_edge_def Let_def)

lemma adj_fold_add_edge:
  "adj (fold (\<lambda>kv. add_edge (AgentNode (fst (fst kv))) (PieceNode (snd (fst kv))) (snd kv)) ws g)
     = fold (\<lambda>kv. AList.update (edge_of (fst kv)) (snd kv)) ws (adj g)"
  by (induction ws arbitrary: g) (auto simp: edge_of_def)

lemma adj_create_matching_graph:
  "adj (create_matching_graph left right weights)
     = fold (\<lambda>kv. AList.update (edge_of (fst kv)) (snd kv)) weights []"
  unfolding create_matching_graph_def Let_def by (simp add: adj_fold_add_edge)

lemma map_of_fold_update_Some:
  "map_of (fold (\<lambda>kv. AList.update (k kv) (v kv)) ws al) e = Some w \<Longrightarrow>
     map_of al e = Some w \<or> (\<exists>kv \<in> set ws. k kv = e \<and> v kv = w)"
proof (induction ws arbitrary: al)
  case Nil
  then show ?case by simp
next
  case (Cons x ws)
  from Cons.IH [OF Cons.prems [simplified]]
  show ?case by (auto simp: update_conv' split: if_splits)
qed

lemma map_of_fold_update_None:
  "map_of (fold (\<lambda>kv. AList.update (k kv) (v kv)) ws al) e = None \<Longrightarrow>
     map_of al e = None \<and> (\<forall>kv \<in> set ws. k kv \<noteq> e)"
proof (induction ws arbitrary: al)
  case Nil
  then show ?case by simp
next
  case (Cons x ws)
  from Cons.IH [OF Cons.prems [simplified]]
  show ?case by (auto simp: update_conv' split: if_splits)
qed

lemma evaluate_entries:
  assumes "map_of (evaluate orc agents ps) (a, p) = Some w"
  shows "a \<in> set agents \<and> p \<in> set ps \<and> w = eval orc a (fst p) (snd p)"
proof -
  have inner: "map_of (fold (\<lambda>agent. AList.update (agent, piece) (eval orc agent (fst piece) (snd piece))) ags al) (a, p) = Some w
      \<Longrightarrow> map_of al (a, p) = Some w \<or> (a \<in> set ags \<and> p = piece \<and> w = eval orc a (fst p) (snd p))"
    for piece ags al
    using map_of_fold_update_Some
      [of "\<lambda>agent. (agent, piece)" "\<lambda>agent. eval orc agent (fst piece) (snd piece)" ags al "(a, p)" w]
    by auto
  have outer: "map_of (fold (\<lambda>piece evaluations.
             fold (\<lambda>agent evaluations.
                     AList.update (agent, piece) (eval orc agent (fst piece) (snd piece)) evaluations)
               agents evaluations) pcs al) (a, p) = Some w
      \<Longrightarrow> map_of al (a, p) = Some w \<or> (a \<in> set agents \<and> p \<in> set pcs \<and> w = eval orc a (fst p) (snd p))"
    for pcs al
  proof (induction pcs arbitrary: al)
    case Nil
    then show ?case by simp
  next
    case (Cons piece pcs)
    from Cons.IH [OF Cons.prems [simplified]] inner [of piece agents al]
    show ?case by auto
  qed
  show ?thesis using outer [of ps "[]"] assms unfolding evaluate_def by simp
qed

lemma evaluate_keys:
  assumes "a \<in> set agents" and "p \<in> set ps"
  shows "map_of (evaluate orc agents ps) (a, p) = Some (eval orc a (fst p) (snd p))"
proof -
  have inner_keep: "map_of al (a, p) = Some (eval orc a (fst p) (snd p)) \<Longrightarrow>
     map_of (fold (\<lambda>agent. AList.update (agent, piece) (eval orc agent (fst piece) (snd piece))) ags al) (a, p)
       = Some (eval orc a (fst p) (snd p))" for piece ags al
    by (induction ags arbitrary: al) (auto simp: update_conv')
  have inner_add: "a \<in> set ags \<Longrightarrow>
     map_of (fold (\<lambda>agent. AList.update (agent, p) (eval orc agent (fst p) (snd p))) ags al) (a, p)
       = Some (eval orc a (fst p) (snd p))" for ags al
  proof (induction ags arbitrary: al)
    case Nil
    then show ?case by simp
  next
    case (Cons x ags)
    show ?case
    proof (cases "a \<in> set ags")
      case True
      then show ?thesis using Cons.IH by simp
    next
      case False
      then have "x = a" using Cons.prems by simp
      then show ?thesis using inner_keep [of "AList.update (a, p) (eval orc a (fst p) (snd p)) al" p ags]
        by (simp add: update_conv')
    qed
  qed
  have outer_keep: "map_of al (a, p) = Some (eval orc a (fst p) (snd p)) \<Longrightarrow>
     map_of (fold (\<lambda>piece evaluations.
             fold (\<lambda>agent evaluations.
                     AList.update (agent, piece) (eval orc agent (fst piece) (snd piece)) evaluations)
               agents evaluations) pcs al) (a, p) = Some (eval orc a (fst p) (snd p))" for pcs al
  proof (induction pcs arbitrary: al)
    case Nil
    then show ?case by simp
  next
    case (Cons piece pcs)
    show ?case using Cons.IH [OF inner_keep [OF Cons.prems, of piece agents]] by simp
  qed
  have outer_add: "p \<in> set pcs \<Longrightarrow>
     map_of (fold (\<lambda>piece evaluations.
             fold (\<lambda>agent evaluations.
                     AList.update (agent, piece) (eval orc agent (fst piece) (snd piece)) evaluations)
               agents evaluations) pcs al) (a, p) = Some (eval orc a (fst p) (snd p))" for pcs al
  proof (induction pcs arbitrary: al)
    case Nil
    then show ?case by simp
  next
    case (Cons piece pcs)
    show ?case
    proof (cases "p \<in> set pcs")
      case True
      then show ?thesis using Cons.IH by simp
    next
      case False
      then have "piece = p" using Cons.prems by simp
      then show ?thesis using outer_keep [OF inner_add [OF assms(1), of al], of pcs] by simp
    qed
  qed
  show ?thesis unfolding evaluate_def using outer_add [OF assms(2), of "[]"] by simp
qed

lemma get_edge_data_create:
  "get_edge_data (create_matching_graph left right weights) u v = Some w \<Longrightarrow>
     \<exists>kv \<in> set weights. u = AgentNode (fst (fst kv)) \<and> v = PieceNode (snd (fst kv)) \<and> snd kv = w"
  unfolding get_edge_data_def adj_create_matching_graph
  by (drule map_of_fold_update_Some) (auto simp: edge_of_def)

subsection \<open>Matchings\<close>

lemma touches_fix_edge:
  "fst (fix_edge e) = fst (fix_edge e') \<or> snd (fix_edge e) = snd (fix_edge e') \<Longrightarrow> touches e e'"
  by (auto simp: fix_edge_def touches_def split: if_splits)

lemma fix_edge_of_graph_edge:
  assumes ok: "\<forall>u v w. get_edge_data g u v = Some w \<longrightarrow> (\<exists>a p. u = AgentNode a \<and> v = PieceNode p \<and> a \<in> set agents)"
    and e: "get_edge_data g (fst e) (snd e) \<noteq> None \<or> get_edge_data g (snd e) (fst e) \<noteq> None"
  shows "\<exists>a p. fix_edge e = (AgentNode a, PieceNode p) \<and> a \<in> set agents
           \<and> get_edge_data g (AgentNode a) (PieceNode p) \<noteq> None"
proof -
  from e consider (fwd) w where "get_edge_data g (fst e) (snd e) = Some w"
    | (bwd) w where "get_edge_data g (snd e) (fst e) = Some w" by auto
  then show ?thesis
  proof cases
    case fwd
    with ok obtain a p where "fst e = AgentNode a" "snd e = PieceNode p" "a \<in> set agents" by blast
    then show ?thesis using fwd by (simp add: fix_edge_def is_agent_def)
  next
    case bwd
    with ok obtain a p where "snd e = AgentNode a" "fst e = PieceNode p" "a \<in> set agents" by blast
    then show ?thesis using bwd by (simp add: fix_edge_def is_agent_def)
  qed
qed

lemma fixed_matching:
  assumes ok: "\<forall>u v w. get_edge_data g u v = Some w \<longrightarrow> (\<exists>a p. u = AgentNode a \<and> v = PieceNode p \<and> a \<in> set agents)"
    and m: "is_matching g es"
  shows "(\<forall>e \<in> set (fix_edges es). \<exists>a p. e = (AgentNode a, PieceNode p) \<and> a \<in> set agents
             \<and> get_edge_data g (AgentNode a) (PieceNode p) \<noteq> None)
         \<and> distinct (map fst (fix_edges es)) \<and> distinct (map snd (fix_edges es))"
proof (intro conjI ballI)
  fix e assume "e \<in> set (fix_edges es)"
  then obtain e0 where e0: "e0 \<in> set es" "e = fix_edge e0" unfolding set_fix_edges by blast
  then have "get_edge_data g (fst e0) (snd e0) \<noteq> None \<or> get_edge_data g (snd e0) (fst e0) \<noteq> None"
    using m unfolding is_matching_def by blast
  from fix_edge_of_graph_edge [OF ok this] e0(2)
  show "\<exists>a p. e = (AgentNode a, PieceNode p) \<and> a \<in> set agents
             \<and> get_edge_data g (AgentNode a) (PieceNode p) \<noteq> None" by simp
next
  have sep: "x = y"
    if x: "x \<in> set (fix_edges es)" and y: "y \<in> set (fix_edges es)"
      and xy: "fst x = fst y \<or> snd x = snd y" for x y
  proof -
    obtain e e' where e: "e \<in> set es" "x = fix_edge e" "e' \<in> set es" "y = fix_edge e'"
      using x y unfolding set_fix_edges by blast
    then have "touches e e'" using xy touches_fix_edge by blast
    then have "e = e'" using m e(1,3) unfolding is_matching_def by blast
    then show ?thesis using e by simp
  qed
  have "inj_on fst (set (fix_edges es))" by (rule inj_onI) (use sep in blast)
  then show "distinct (map fst (fix_edges es))" by (simp add: distinct_map distinct_fix_edges)
  have "inj_on snd (set (fix_edges es))" by (rule inj_onI) (use sep in blast)
  then show "distinct (map snd (fix_edges es))" by (simp add: distinct_map distinct_fix_edges)
qed

lemma calculate_weight_loop_sum:
  "\<forall>e \<in> set es. get_edge_data g (fst e) (snd e) \<noteq> None \<Longrightarrow>
     calculate_weight_loop g es acc =
       Inr (acc + sum_list (map (\<lambda>e. the (get_edge_data g (fst e) (snd e))) es))"
  by (induction es arbitrary: acc) (auto simp: algebra_simps)

lemma well_allocated_matching:
  assumes M: "\<forall>e \<in> set M. \<exists>a p. e = (AgentNode a, PieceNode p) \<and> a \<in> set agents"
    and d1: "distinct (map fst M)" and d2: "distinct (map snd M)"
    and al: "allocate M = Inr al"
  shows "well_allocated agents M al"
proof -
  have eq: "al = \<lparr>alloc_agents = map fst M, alloc_pieces = map (\<lambda>e. Some [snd e]) M\<rparr>"
    using allocate_distinct [OF d1] al by simp
  have entries: "\<exists>a p. M ! i = (AgentNode a, PieceNode p) \<and> a \<in> set agents
             \<and> alloc_agents al ! i = AgentNode a \<and> alloc_pieces al ! i = Some [PieceNode p]"
    if "i < length M" for i
  proof -
    have "M ! i \<in> set M" using that by simp
    then obtain a p where "M ! i = (AgentNode a, PieceNode p)" "a \<in> set agents" using M by blast
    then show ?thesis using that eq by simp
  qed
  have pieces: "alloc_pieces al ! i \<noteq> alloc_pieces al ! j"
    if "i < length M" "j < length M" "i \<noteq> j" for i j
  proof -
    have "map snd M ! i \<noteq> map snd M ! j"
      using d2 that by (simp add: nth_eq_iff_index_eq del: nth_map)
    then show ?thesis using that eq by simp
  qed
  show ?thesis unfolding well_allocated_def
    using eq d1 entries pieces by simp
qed

subsection \<open>The loop of Algorithm 2\<close>

lemma discrete_loop_best:
  assumes "discrete_loop orc mwm agents pieces ts best = Inr best'"
  shows "fst best \<le> fst best'
     \<and> (\<forall>t \<in> set ts. \<exists>w M. level_matching orc mwm agents pieces t = Inr (w, M) \<and> w \<le> fst best')
     \<and> (best' = best \<or>
        (\<exists>i < length ts. \<exists>M. level_matching orc mwm agents pieces (ts ! i) = Inr (fst best', M)
            \<and> snd best' = Some M \<and> fst best < fst best'
            \<and> (\<forall>j < i. \<exists>w M'. level_matching orc mwm agents pieces (ts ! j) = Inr (w, M')
                   \<and> w < fst best')))"
  using assms
proof (induction ts arbitrary: best)
  case Nil
  then show ?case by simp
next
  case (Cons t ts)
  let ?L = "level_matching orc mwm agents pieces"
  from Cons.prems obtain w M where L: "?L t = Inr (w, M)"
    by (auto split: sum.splits)
  define best1 where "best1 = (if w > fst best then (w, Some M) else best)"
  have run: "discrete_loop orc mwm agents pieces ts best1 = Inr best'"
    using Cons.prems L by (simp add: best1_def)
  note IH = Cons.IH [OF run]
  have w1: "w \<le> fst best1" and b1: "fst best \<le> fst best1" by (auto simp: best1_def)
  from IH have le: "fst best1 \<le> fst best'" by blast
  have A: "fst best \<le> fst best'" using b1 le by simp
  have B: "\<forall>t' \<in> set (t # ts). \<exists>w M. ?L t' = Inr (w, M) \<and> w \<le> fst best'"
    using IH L w1 le by auto
  from IH have "best' = best1 \<or>
        (\<exists>i < length ts. \<exists>M. ?L (ts ! i) = Inr (fst best', M)
            \<and> snd best' = Some M \<and> fst best1 < fst best'
            \<and> (\<forall>j < i. \<exists>w M'. ?L (ts ! j) = Inr (w, M') \<and> w < fst best'))" by blast
  then have C: "best' = best \<or>
        (\<exists>i < length (t # ts). \<exists>M. ?L ((t # ts) ! i) = Inr (fst best', M)
            \<and> snd best' = Some M \<and> fst best < fst best'
            \<and> (\<forall>j < i. \<exists>w M'. ?L ((t # ts) ! j) = Inr (w, M') \<and> w < fst best'))"
  proof
    assume eq: "best' = best1"
    show ?thesis
    proof (cases "w > fst best")
      case True
      then have "best' = (w, Some M)" using eq by (simp add: best1_def)
      then have "0 < length (t # ts) \<and> ?L ((t # ts) ! 0) = Inr (fst best', M)
            \<and> snd best' = Some M \<and> fst best < fst best'
            \<and> (\<forall>j < 0. \<exists>w M'. ?L ((t # ts) ! j) = Inr (w, M') \<and> w < fst best')"
        using L True by simp
      then show ?thesis by blast
    next
      case False
      then show ?thesis using eq by (simp add: best1_def)
    qed
  next
    assume "\<exists>i < length ts. \<exists>M. ?L (ts ! i) = Inr (fst best', M)
            \<and> snd best' = Some M \<and> fst best1 < fst best'
            \<and> (\<forall>j < i. \<exists>w M'. ?L (ts ! j) = Inr (w, M') \<and> w < fst best')"
    then obtain i M' where i: "i < length ts" "?L (ts ! i) = Inr (fst best', M')"
      "snd best' = Some M'" "fst best1 < fst best'"
      "\<forall>j < i. \<exists>w M'. ?L (ts ! j) = Inr (w, M') \<and> w < fst best'" by blast
    have before: "\<exists>w M'. ?L ((t # ts) ! j) = Inr (w, M') \<and> w < fst best'" if "j < Suc i" for j
    proof (cases j)
      case 0
      then show ?thesis using L w1 i(4) by auto
    next
      case (Suc j')
      then show ?thesis using i(5) that by simp
    qed
    have "Suc i < length (t # ts) \<and> ?L ((t # ts) ! Suc i) = Inr (fst best', M')
            \<and> snd best' = Some M' \<and> fst best < fst best'
            \<and> (\<forall>j < Suc i. \<exists>w M'. ?L ((t # ts) ! j) = Inr (w, M') \<and> w < fst best')"
      using i b1 before by auto
    then show ?thesis by blast
  qed
  from A B C show ?case by blast
qed

lemma discrete_setting_chosen_level:
  assumes "discrete_setting orc mwm agents pieces = Inr al"
  shows "\<exists>t0 w0 M0. t0 \<le> floor_log2 (length pieces)
      \<and> level_matching orc mwm agents pieces t0 = Inr (w0, M0)
      \<and> allocate M0 = Inr al
      \<and> (\<forall>t \<le> floor_log2 (length pieces).
            \<exists>w M. level_matching orc mwm agents pieces t = Inr (w, M) \<and> w \<le> w0)
      \<and> (\<forall>t < t0. \<exists>w M. level_matching orc mwm agents pieces t = Inr (w, M) \<and> w < w0)"
proof -
  let ?r = "floor_log2 (length pieces)"
  from assms have m: "length pieces \<noteq> 0"
    unfolding discrete_setting_def Let_def int_log2_def by (auto split: if_splits)
  from assms m obtain best where
    run: "discrete_loop orc mwm agents pieces [0..<?r + 1] (0, None) = Inr best"
    unfolding discrete_setting_def Let_def int_log2_def by (auto split: sum.splits)
  from assms m run obtain M0 where M0: "snd best = Some M0" "allocate M0 = Inr al"
    unfolding discrete_setting_def Let_def int_log2_def by (auto split: option.splits)
  note inv = discrete_loop_best [OF run]
  from inv M0(1) obtain i M where i: "i < length [0..<?r + 1]"
    "level_matching orc mwm agents pieces ([0..<?r + 1] ! i) = Inr (fst best, M)"
    "snd best = Some M"
    "\<forall>j < i. \<exists>w M'. level_matching orc mwm agents pieces ([0..<?r + 1] ! j) = Inr (w, M') \<and> w < fst best"
    by auto
  have ir: "i \<le> ?r" using i(1) by simp
  have nth: "[0..<?r + 1] ! j = j" if "j \<le> ?r" for j
    using that by (metis add_0 less_Suc_eq_le nth_upt Suc_eq_plus1)
  have 1: "level_matching orc mwm agents pieces i = Inr (fst best, M0)"
    using i(2,3) M0(1) nth [OF ir] by simp
  have 2: "\<forall>t \<le> ?r. \<exists>w M. level_matching orc mwm agents pieces t = Inr (w, M) \<and> w \<le> fst best"
  proof (intro allI impI)
    fix t assume "t \<le> ?r"
    then have "t \<in> set [0..<?r + 1]" by auto
    with inv show "\<exists>w M. level_matching orc mwm agents pieces t = Inr (w, M) \<and> w \<le> fst best"
      by blast
  qed
  have 3: "\<forall>t < i. \<exists>w M. level_matching orc mwm agents pieces t = Inr (w, M) \<and> w < fst best"
  proof (intro allI impI)
    fix t assume t: "t < i"
    then have "t \<le> ?r" using ir by simp
    from nth [OF this] i(4) t show "\<exists>w M. level_matching orc mwm agents pieces t = Inr (w, M) \<and> w < fst best"
      by force
  qed
  from ir 1 M0(2) 2 3 show ?thesis by blast
qed

lemma distinct_fold_update:
  "distinct (map fst al) \<Longrightarrow> distinct (map fst (fold (\<lambda>x. AList.update (k x) (v x)) xs al))"
  by (induction xs arbitrary: al) (auto simp: distinct_update)

lemma distinct_evaluate: "distinct (map fst (evaluate orc agents ps))"
proof -
  have "distinct (map fst al) \<Longrightarrow> distinct (map fst (fold (\<lambda>piece evaluations.
             fold (\<lambda>agent evaluations.
                     AList.update (agent, piece) (eval orc agent (fst piece) (snd piece)) evaluations)
               agents evaluations) pcs al))" for pcs al
  proof (induction pcs arbitrary: al)
    case Nil
    then show ?case by simp
  next
    case (Cons piece pcs)
    have "distinct (map fst (fold (\<lambda>agent. AList.update (agent, piece) (eval orc agent (fst piece) (snd piece))) agents al))"
      using Cons.prems by (rule distinct_fold_update)
    then show ?case using Cons.IH by simp
  qed
  from this [of "[]" ps] show ?thesis unfolding evaluate_def by simp
qed

lemma evaluated_graph_edges:
  assumes "get_edge_data (create_matching_graph left right (evaluate orc agents ps)) u v = Some w"
  shows "\<exists>a p. u = AgentNode a \<and> v = PieceNode p \<and> a \<in> set agents \<and> p \<in> set ps
           \<and> w = eval orc a (fst p) (snd p)"
proof -
  from get_edge_data_create [OF assms] obtain kv where
    kv: "kv \<in> set (evaluate orc agents ps)" "u = AgentNode (fst (fst kv))"
        "v = PieceNode (snd (fst kv))" "snd kv = w" by blast
  then have "(fst kv, w) \<in> set (evaluate orc agents ps)" by (cases kv) auto
  then have "map_of (evaluate orc agents ps) (fst (fst kv), snd (fst kv)) = Some w"
    using distinct_evaluate [of orc agents ps] by simp
  from evaluate_entries [OF this] kv show ?thesis by blast
qed

lemma level_graph_edges:
  "get_edge_data (level_graph orc agents ps) u v = Some w \<Longrightarrow>
     \<exists>a p. u = AgentNode a \<and> v = PieceNode p \<and> a \<in> set agents \<and> p \<in> set ps
           \<and> w = eval orc a (fst p) (snd p)"
  unfolding level_graph_def by (rule evaluated_graph_edges)

lemma tiling_graph_edges:
  "get_edge_data (tiling_graph orc agents len p0 pd tiling) u v = Some w \<Longrightarrow>
     \<exists>a p. u = AgentNode a \<and> v = PieceNode p \<and> a \<in> set agents \<and> p \<in> set (normalize len (p0 @ pd))
           \<and> w = eval orc a (fst p) (snd p)"
  unfolding tiling_graph_def Let_def by (rule evaluated_graph_edges)

lemma zip_maps: "zip (map f xs) (map g xs) = map (\<lambda>x. (f x, g x)) xs"
  by (induction xs) auto

text \<open>What the matching of a graph of evaluations gives: a well-formed allocation whose
  value is the weight of the matching.\<close>

lemma matching_allocation:
  assumes edges: "\<forall>u v w. get_edge_data g u v = Some w \<longrightarrow>
              (\<exists>a p. u = AgentNode a \<and> v = PieceNode p \<and> a \<in> set agents
                 \<and> w = eval orc a (fst p) (snd p))"
    and m: "is_matching g es"
    and al: "allocate (fix_edges es) = Inr al"
  shows "well_allocated agents (fix_edges es) al
         \<and> calculate_weight g (fix_edges es) = Inr (allocation_weight orc al)"
proof -
  let ?M = "fix_edges es"
  have ok: "\<forall>u v w. get_edge_data g u v = Some w \<longrightarrow> (\<exists>a p. u = AgentNode a \<and> v = PieceNode p \<and> a \<in> set agents)"
    using edges by blast
  note fm = fixed_matching [OF ok m]
  have shape: "\<forall>e \<in> set ?M. \<exists>a p. e = (AgentNode a, PieceNode p) \<and> a \<in> set agents"
    using fm by blast
  have d1: "distinct (map fst ?M)" and d2: "distinct (map snd ?M)" using fm by blast+
  have wa: "well_allocated agents ?M al" by (rule well_allocated_matching [OF shape d1 d2 al])
  have eq: "al = \<lparr>alloc_agents = map fst ?M, alloc_pieces = map (\<lambda>e. Some [snd e]) ?M\<rparr>"
    using allocate_distinct [OF d1] al by simp
  have present: "\<forall>e \<in> set ?M. get_edge_data g (fst e) (snd e) \<noteq> None"
    using fm by fastforce
  have val: "entry_weight orc (fst e, Some [snd e]) = the (get_edge_data g (fst e) (snd e))"
    if "e \<in> set ?M" for e
  proof -
    from fm that obtain a p where e: "e = (AgentNode a, PieceNode p)"
      and "get_edge_data g (AgentNode a) (PieceNode p) \<noteq> None" by blast
    then obtain w where w: "get_edge_data g (AgentNode a) (PieceNode p) = Some w" by blast
    with edges have "w = eval orc a (fst p) (snd p)" by blast
    then show ?thesis using e w by (simp add: entry_weight_def)
  qed
  have "allocation_weight orc al = sum_list (map (\<lambda>e. entry_weight orc (fst e, Some [snd e])) ?M)"
    unfolding allocation_weight_def eq by (simp add: zip_maps o_def)
  also have "\<dots> = sum_list (map (\<lambda>e. the (get_edge_data g (fst e) (snd e))) ?M)"
    using val by (simp cong: map_cong)
  finally have "calculate_weight g ?M = Inr (allocation_weight orc al)"
    unfolding calculate_weight_def using calculate_weight_loop_sum [OF present, of 0] by simp
  with wa show ?thesis by blast
qed

lemma level_matching_parts:
  assumes "level_matching orc mwm agents pieces t = Inr (w, M)"
  shows "\<exists>ps. M = fix_edges (mwm (level_graph orc agents ps))
           \<and> calculate_weight (level_graph orc agents ps) M = Inr w"
  using assms unfolding level_matching_def Let_def
  by (auto split: sum.splits)

lemma choose_heavier_parts:
  assumes "choose_heavier orc mwm agents p0 pd = Inr M"
  shows "\<exists>len tiling. M = fix_edges (mwm (tiling_graph orc agents len p0 pd tiling))"
  using assms unfolding choose_heavier_def Let_def
  by (auto split: sum.splits if_splits)

lemma touches_refl: "touches e e"
  by (simp add: touches_def)

lemma touches_sym: "touches e e' \<Longrightarrow> touches e' e"
  by (auto simp: touches_def)

lemma first_fit_invariant:
  assumes "distinct acc" and "\<forall>e \<in> set acc. \<forall>e' \<in> set acc. e \<noteq> e' \<longrightarrow> \<not> touches e e'"
  shows "distinct (fold (\<lambda>e acc. if \<exists>e' \<in> set acc. touches e e' then acc else acc @ [e]) xs acc)
     \<and> (\<forall>e \<in> set (fold (\<lambda>e acc. if \<exists>e' \<in> set acc. touches e e' then acc else acc @ [e]) xs acc).
           \<forall>e' \<in> set (fold (\<lambda>e acc. if \<exists>e' \<in> set acc. touches e e' then acc else acc @ [e]) xs acc).
             e \<noteq> e' \<longrightarrow> \<not> touches e e')
     \<and> set (fold (\<lambda>e acc. if \<exists>e' \<in> set acc. touches e e' then acc else acc @ [e]) xs acc)
           \<subseteq> set acc \<union> set xs"
  using assms
proof (induction xs arbitrary: acc)
  case Nil
  then show ?case by simp
next
  case (Cons x xs)
  show ?case
  proof (cases "\<exists>e' \<in> set acc. touches x e'")
    case True
    then show ?thesis using Cons.IH [OF Cons.prems] by auto
  next
    case False
    then have nx: "x \<notin> set acc" using touches_refl by blast
    have d: "distinct (acc @ [x])" using Cons.prems(1) nx by simp
    have s: "\<forall>e \<in> set (acc @ [x]). \<forall>e' \<in> set (acc @ [x]). e \<noteq> e' \<longrightarrow> \<not> touches e e'"
    proof (intro ballI impI)
      fix e e' assume e: "e \<in> set (acc @ [x])" "e' \<in> set (acc @ [x])" "e \<noteq> e'"
      show "\<not> touches e e'"
      proof (cases "e = x")
        case True
        then have "e' \<in> set acc" using e by auto
        then show ?thesis using False True by blast
      next
        case ex: False
        show ?thesis
        proof (cases "e' = x")
          case True
          then have "e \<in> set acc" using e by auto
          then have "\<not> touches x e" using False by blast
          then show ?thesis using True touches_sym by blast
        next
          case False
          then show ?thesis using ex e Cons.prems(2) by auto
        qed
      qed
    qed
    from Cons.IH [OF d s] False show ?thesis by auto
  qed
qed

lemma first_fit_is_matching: "is_matching g (first_fit g)"
proof -
  note inv = first_fit_invariant [of "[]" "map fst (adj g)", simplified, folded first_fit_def]
  have "get_edge_data g (fst e) (snd e) \<noteq> None" if "e \<in> set (first_fit g)" for e
  proof -
    have "e \<in> fst ` set (adj g)" using inv that by auto
    then show ?thesis unfolding get_edge_data_def by (simp add: map_of_eq_None_iff)
  qed
  then show ?thesis unfolding is_matching_def using inv by blast
qed

text \<open>
  C2. Whenever \<^verbatim>\<open>discrete_setting\<close> returns an allocation, that allocation is built from
  the matching \<open>M0\<close> of some level \<open>t0\<close> in \<open>0 .. floor (log2 m)\<close>; every level \<open>t\<close> in
  that range (the finest, \<open>t = 0\<close>, and the coarsest included) produced a matching, of a
  weight at most the weight \<open>w0\<close> of \<open>M0\<close>; every level before \<open>t0\<close> has a strictly
  smaller weight, so among the levels of maximal weight the smallest one is returned. When
  the solver returns matchings, \<open>w0\<close> is the total value of the returned allocation.
\<close>

theorem discrete_setting_keeps_best:
  assumes "discrete_setting orc mwm agents pieces = Inr al"
  shows "\<exists>t0 w0 M0. t0 \<le> floor_log2 (length pieces)
      \<and> level_matching orc mwm agents pieces t0 = Inr (w0, M0)
      \<and> allocate M0 = Inr al
      \<and> (\<forall>t \<le> floor_log2 (length pieces).
            \<exists>w M. level_matching orc mwm agents pieces t = Inr (w, M) \<and> w \<le> w0)
      \<and> (\<forall>t < t0. \<exists>w M. level_matching orc mwm agents pieces t = Inr (w, M) \<and> w < w0)
      \<and> ((\<forall>g. is_matching g (mwm g)) \<longrightarrow> allocation_weight orc al = w0)"
proof -
  from discrete_setting_chosen_level [OF assms] obtain t0 w0 M0 where
    c: "t0 \<le> floor_log2 (length pieces)"
       "level_matching orc mwm agents pieces t0 = Inr (w0, M0)"
       "allocate M0 = Inr al"
       "\<forall>t \<le> floor_log2 (length pieces).
            \<exists>w M. level_matching orc mwm agents pieces t = Inr (w, M) \<and> w \<le> w0"
       "\<forall>t < t0. \<exists>w M. level_matching orc mwm agents pieces t = Inr (w, M) \<and> w < w0"
    by blast
  have "allocation_weight orc al = w0" if contract: "\<forall>g. is_matching g (mwm g)"
  proof -
    from level_matching_parts [OF c(2)] obtain ps where
      ps: "M0 = fix_edges (mwm (level_graph orc agents ps))"
          "calculate_weight (level_graph orc agents ps) M0 = Inr w0" by blast
    have edges: "\<forall>u v w. get_edge_data (level_graph orc agents ps) u v = Some w \<longrightarrow>
              (\<exists>a p. u = AgentNode a \<and> v = PieceNode p \<and> a \<in> set agents
                 \<and> w = eval orc a (fst p) (snd p))"
      using level_graph_edges [of orc agents ps] by blast
    have m: "is_matching (level_graph orc agents ps) (mwm (level_graph orc agents ps))"
      using contract by blast
    from matching_allocation [OF edges m] c(3) ps show ?thesis by simp
  qed
  with c show ?thesis by blast
qed

theorem discrete_setting_keeps_best_witness:
  "discrete_setting piecewise_constant first_fit
       [(''Alice'', [100, 1]), (''Bob'', [2, 90])] [(0, 1), (1, 2)] =
     Inr \<lparr>alloc_agents = [AgentNode (''Alice'', [100, 1]), AgentNode (''Bob'', [2, 90])],
          alloc_pieces = [Some [PieceNode (0, 1)], Some [PieceNode (1, 2)]]\<rparr>
   \<and> (\<exists>t0 w0 M0. t0 \<le> 1
        \<and> level_matching piecewise_constant first_fit
             [(''Alice'', [100, 1]), (''Bob'', [2, 90])] [(0, 1), (1, 2)] t0 = Inr (w0, M0)
        \<and> allocation_weight piecewise_constant
             \<lparr>alloc_agents = [AgentNode (''Alice'', [100, 1]), AgentNode (''Bob'', [2, 90])],
              alloc_pieces = [Some [PieceNode (0, 1)], Some [PieceNode (1, 2)]]\<rparr> = w0
        \<and> (\<exists>w M. level_matching piecewise_constant first_fit
             [(''Alice'', [100, 1]), (''Bob'', [2, 90])] [(0, 1), (1, 2)] 0 = Inr (w, M) \<and> w \<le> w0)
        \<and> (\<exists>w M. level_matching piecewise_constant first_fit
             [(''Alice'', [100, 1]), (''Bob'', [2, 90])] [(0, 1), (1, 2)] 1 = Inr (w, M) \<and> w \<le> w0))"
proof -
  let ?A = "[(''Alice'', [100, 1]), (''Bob'', [2, 90 :: real])]"
  let ?P = "[(0, 1), (1, 2)] :: piece list"
  let ?al = "\<lparr>alloc_agents = [AgentNode (''Alice'', [100, 1]), AgentNode (''Bob'', [2, 90 :: real])],
          alloc_pieces = [Some [PieceNode (0, 1)], Some [PieceNode (1, 2)]]\<rparr>"
  have run: "discrete_setting piecewise_constant first_fit ?A ?P = Inr ?al" by code_simp
  have r: "floor_log2 (length ?P) = 1" by code_simp
  have contract: "\<forall>g :: (string \<times> real list) graph. is_matching g (first_fit g)"
    using first_fit_is_matching by blast
  from discrete_setting_keeps_best [OF run] contract r
  obtain t0 w0 M0 where
    "t0 \<le> 1"
    "level_matching piecewise_constant first_fit ?A ?P t0 = Inr (w0, M0)"
    "\<forall>t \<le> 1. \<exists>w M. level_matching piecewise_constant first_fit ?A ?P t = Inr (w, M) \<and> w \<le> w0"
    "allocation_weight piecewise_constant ?al = w0"
    by auto
  then show ?thesis using run by (metis le_refl zero_le_one of_nat_0_le_iff zero_le)
qed


text \<open>
  C3. Let the solver return matchings. Whenever \<^verbatim>\<open>equally_sized_pieces\<close> or
  \<^verbatim>\<open>discrete_setting\<close> returns an allocation, it is built from the winning matching
  \<open>M\<close> (the heavier of the two tilings' matchings, or the matching of a level) so that: the
  chosen agents are exactly the agents of \<open>M\<close>, pairwise distinct and among the given
  agents; each of them holds exactly one piece, the one it is matched to; and no piece is
  held by two agents. An agent that \<open>M\<close> leaves out is not in the allocation.
\<close>

theorem allocation_is_a_matching:
  assumes contract: "\<forall>g. is_matching g (mwm g)"
  shows "(equally_sized_pieces orc mwm agents piece_size = Some (Inr al) \<longrightarrow>
            (\<exists>p0 pd M. create_partition piece_size 0 = Some p0
               \<and> create_partition piece_size (1 - of_int (py_int (1 / piece_size)) * piece_size) = Some pd
               \<and> choose_heavier orc mwm agents p0 pd = Inr M
               \<and> well_allocated agents M al))
       \<and> (discrete_setting orc mwm agents pieces = Inr al' \<longrightarrow>
            (\<exists>t w M. t \<le> floor_log2 (length pieces)
               \<and> level_matching orc mwm agents pieces t = Inr (w, M)
               \<and> well_allocated agents M al'))"
proof (intro conjI impI)
  assume run: "equally_sized_pieces orc mwm agents piece_size = Some (Inr al)"
  let ?delta = "1 - of_int (py_int (1 / piece_size)) * piece_size"
  from run have ok: "agents \<noteq> []" "0 < piece_size" "piece_size \<le> 1"
    unfolding equally_sized_pieces_def Let_def by (auto split: if_splits)
  from run ok obtain p0 where p0: "create_partition piece_size 0 = Some p0"
    unfolding equally_sized_pieces_def Let_def by (auto split: option.splits)
  from run ok p0 obtain pd where pd: "create_partition piece_size ?delta = Some pd"
    unfolding equally_sized_pieces_def Let_def by (auto split: option.splits)
  from run ok p0 pd obtain M where M: "choose_heavier orc mwm agents p0 pd = Inr M" "allocate M = Inr al"
    unfolding equally_sized_pieces_def Let_def by (auto split: sum.splits)
  from choose_heavier_parts [OF M(1)] obtain len tiling where
    g: "M = fix_edges (mwm (tiling_graph orc agents len p0 pd tiling))" by blast
  let ?g = "tiling_graph orc agents len p0 pd tiling"
  have edges: "\<forall>u v w. get_edge_data ?g u v = Some w \<longrightarrow>
              (\<exists>a p. u = AgentNode a \<and> v = PieceNode p \<and> a \<in> set agents
                 \<and> w = eval orc a (fst p) (snd p))"
    using tiling_graph_edges [of orc agents len p0 pd tiling] by blast
  have m: "is_matching ?g (mwm ?g)" using contract by blast
  from matching_allocation [OF edges m] M(2) g have "well_allocated agents M al" by simp
  with p0 pd M(1)
  show "\<exists>p0 pd M. create_partition piece_size 0 = Some p0
               \<and> create_partition piece_size ?delta = Some pd
               \<and> choose_heavier orc mwm agents p0 pd = Inr M
               \<and> well_allocated agents M al" by blast
next
  assume run: "discrete_setting orc mwm agents pieces = Inr al'"
  from discrete_setting_chosen_level [OF run] obtain t0 w0 M0 where
    c: "t0 \<le> floor_log2 (length pieces)"
       "level_matching orc mwm agents pieces t0 = Inr (w0, M0)"
       "allocate M0 = Inr al'" by blast
  from level_matching_parts [OF c(2)] obtain ps where
    ps: "M0 = fix_edges (mwm (level_graph orc agents ps))" by blast
  have edges: "\<forall>u v w. get_edge_data (level_graph orc agents ps) u v = Some w \<longrightarrow>
              (\<exists>a p. u = AgentNode a \<and> v = PieceNode p \<and> a \<in> set agents
                 \<and> w = eval orc a (fst p) (snd p))"
    using level_graph_edges [of orc agents ps] by blast
  have m: "is_matching (level_graph orc agents ps) (mwm (level_graph orc agents ps))"
    using contract by blast
  from matching_allocation [OF edges m] c(3) ps have "well_allocated agents M0 al'" by simp
  with c show "\<exists>t w M. t \<le> floor_log2 (length pieces)
               \<and> level_matching orc mwm agents pieces t = Inr (w, M)
               \<and> well_allocated agents M al'" by blast
qed


theorem allocation_is_a_matching_witness:
  "equally_sized_pieces piecewise_constant first_fit
       [(''Alice'', [1, 1, 1, 1, 1]), (''Bob'', [3, 3, 3, 1, 1])] (3 / 5) =
     Some (Inr \<lparr>alloc_agents = [AgentNode (''Alice'', [1, 1, 1, 1, 1]), AgentNode (''Bob'', [3, 3, 3, 1, 1])],
                alloc_pieces = [Some [PieceNode (0, 3)], Some [PieceNode (2, 5)]]\<rparr>)
   \<and> (\<exists>M. well_allocated [(''Alice'', [1, 1, 1, 1, 1]), (''Bob'', [3, 3, 3, 1, 1 :: real])] M
          \<lparr>alloc_agents = [AgentNode (''Alice'', [1, 1, 1, 1, 1]), AgentNode (''Bob'', [3, 3, 3, 1, 1])],
           alloc_pieces = [Some [PieceNode (0, 3)], Some [PieceNode (2, 5)]]\<rparr>)
   \<and> discrete_setting piecewise_constant first_fit
       [(''Alice'', [100, 1]), (''Bob'', [2, 90])] [(0, 1), (1, 2)] =
     Inr \<lparr>alloc_agents = [AgentNode (''Alice'', [100, 1]), AgentNode (''Bob'', [2, 90])],
          alloc_pieces = [Some [PieceNode (0, 1)], Some [PieceNode (1, 2)]]\<rparr>
   \<and> (\<exists>M. well_allocated [(''Alice'', [100, 1]), (''Bob'', [2, 90 :: real])] M
          \<lparr>alloc_agents = [AgentNode (''Alice'', [100, 1]), AgentNode (''Bob'', [2, 90])],
           alloc_pieces = [Some [PieceNode (0, 1)], Some [PieceNode (1, 2)]]\<rparr>)"
proof -
  have contract: "\<forall>g :: (string \<times> real list) graph. is_matching g (first_fit g)"
    using first_fit_is_matching by blast
  have e: "equally_sized_pieces piecewise_constant first_fit
            [(''Alice'', [1, 1, 1, 1, 1]), (''Bob'', [3, 3, 3, 1, 1])] (3 / 5) =
          Some (Inr \<lparr>alloc_agents = [AgentNode (''Alice'', [1, 1, 1, 1, 1]), AgentNode (''Bob'', [3, 3, 3, 1, 1])],
                     alloc_pieces = [Some [PieceNode (0, 3)], Some [PieceNode (2, 5)]]\<rparr>)"
    by code_simp
  have d: "discrete_setting piecewise_constant first_fit
            [(''Alice'', [100, 1]), (''Bob'', [2, 90])] [(0, 1), (1, 2)] =
          Inr \<lparr>alloc_agents = [AgentNode (''Alice'', [100, 1]), AgentNode (''Bob'', [2, 90])],
               alloc_pieces = [Some [PieceNode (0, 1)], Some [PieceNode (1, 2)]]\<rparr>"
    by code_simp
  note t = allocation_is_a_matching [OF contract]
  from t [of piecewise_constant _ "3 / 5"] e
  have 1: "\<exists>M. well_allocated [(''Alice'', [1, 1, 1, 1, 1]), (''Bob'', [3, 3, 3, 1, 1 :: real])] M
          \<lparr>alloc_agents = [AgentNode (''Alice'', [1, 1, 1, 1, 1]), AgentNode (''Bob'', [3, 3, 3, 1, 1])],
           alloc_pieces = [Some [PieceNode (0, 3)], Some [PieceNode (2, 5)]]\<rparr>"
    by blast
  from t [of piecewise_constant] d
  have 2: "\<exists>M. well_allocated [(''Alice'', [100, 1]), (''Bob'', [2, 90 :: real])] M
          \<lparr>alloc_agents = [AgentNode (''Alice'', [100, 1]), AgentNode (''Bob'', [2, 90])],
           alloc_pieces = [Some [PieceNode (0, 1)], Some [PieceNode (1, 2)]]\<rparr>"
    by blast
  from e 1 d 2 show ?thesis by blast
qed

subsection \<open>Levels without a positive weight\<close>

lemma level_matching_level:
  assumes "level_matching orc mwm agents pieces t = Inr (w, M)"
  shows "\<exists>ps. change_partition pieces t = Inr ps
           \<and> calculate_weight (level_graph orc agents ps) M = Inr w"
  using assms unfolding level_matching_def Let_def
  by (auto split: sum.splits)

lemma level_matching_error:
  assumes "level_matching orc mwm agents pieces t = Inl e"
  shows "e = TypeError ''NoneType object is not subscriptable''"
proof -
  obtain ps where "change_partition pieces t = Inr ps"
    using change_partition_eq by blast
  then show ?thesis
    using assms unfolding level_matching_def Let_def
    by (auto split: sum.splits dest: calculate_weight_error)
qed

lemma discrete_loop_error:
  "discrete_loop orc mwm agents pieces ts best = Inl e \<Longrightarrow>
     e = TypeError ''NoneType object is not subscriptable''"
proof (induction ts arbitrary: best)
  case Nil
  then show ?case by simp
next
  case (Cons t ts)
  show ?case
  proof (cases "level_matching orc mwm agents pieces t")
    case (Inl e')
    then show ?thesis using Cons.prems level_matching_error [OF Inl] by simp
  next
    case (Inr wm)
    then show ?thesis using Cons.prems Cons.IH by (cases wm) auto
  qed
qed

lemma calculate_weight_loop_zero:
  assumes "\<forall>u v w. get_edge_data g u v = Some w \<longrightarrow> w = 0"
  shows "calculate_weight_loop g es acc = Inr w \<Longrightarrow> w = acc"
proof (induction es arbitrary: acc)
  case Nil
  then show ?case by simp
next
  case (Cons e es)
  from Cons.prems obtain x where x: "get_edge_data g (fst e) (snd e) = Some x"
    "calculate_weight_loop g es (acc + x) = Inr w"
    by (auto split: option.splits)
  then have "x = 0" using assms by blast
  then show ?case using Cons.IH x(2) by simp
qed

lemma discrete_setting_all_zero:
  assumes nonempty: "pieces \<noteq> []"
    and zero: "\<forall>t ps. change_partition pieces t = Inr ps \<longrightarrow>
                (\<forall>a \<in> set agents. \<forall>p \<in> set ps. eval orc a (fst p) (snd p) = 0)"
  shows "\<exists>msg. discrete_setting orc mwm agents pieces = Inl (TypeError msg)"
proof -
  let ?r = "floor_log2 (length pieces)"
  have level0: "w = 0" if L: "level_matching orc mwm agents pieces t = Inr (w, M)" for t w M
  proof -
    from level_matching_level [OF L] obtain ps where
      ps: "change_partition pieces t = Inr ps"
          "calculate_weight (level_graph orc agents ps) M = Inr w" by blast
    have "\<forall>u v x. get_edge_data (level_graph orc agents ps) u v = Some x \<longrightarrow> x = 0"
    proof (intro allI impI)
      fix u v x assume "get_edge_data (level_graph orc agents ps) u v = Some x"
      from level_graph_edges [OF this] obtain a p where
        "a \<in> set agents" "p \<in> set ps" "x = eval orc a (fst p) (snd p)" by blast
      then show "x = 0" using zero ps(1) by blast
    qed
    from calculate_weight_loop_zero [OF this] ps(2) show ?thesis
      unfolding calculate_weight_def by blast
  qed
  have m: "int_log2 (length pieces) = Inr ?r" using nonempty by (simp add: int_log2_def)
  show ?thesis
  proof (cases "discrete_loop orc mwm agents pieces [0..<?r + 1] (0, None)")
    case (Inl e)
    then show ?thesis using m discrete_loop_error [OF Inl]
      unfolding discrete_setting_def Let_def by simp
  next
    case (Inr best)
    from discrete_loop_best [OF Inr] level0 have "best = (0, None)" by fastforce
    then show ?thesis using m Inr unfolding discrete_setting_def Let_def by simp
  qed
qed

text \<open>
  C6 (the code departs from it). When every agent values every coarsened piece at zero,
  \<^verbatim>\<open>discrete_setting\<close> does not return the allocation of zero agents: no level has a weight
  above the initial \<open>max_weight = 0\<close>, \<open>max_match\<close> is still \<open>None\<close> after the loop, and
  iterating over it raises TypeError. The theorem runs the code on one agent who values
  both pieces at zero, with one solver and then with any solver; on the same agent
  \<^verbatim>\<open>equally_sized_pieces\<close> does return the allocation of zero agents when the matching
  is empty.
\<close>

theorem discrete_setting_zero_values_raises:
  "discrete_setting piecewise_constant first_fit [(''Alice'', [0, 0])] [(0, 1), (1, 2)] =
     Inl (TypeError ''NoneType object is not iterable'')
   \<and> (\<exists>msg. discrete_setting piecewise_constant mwm [(''Alice'', [0, 0])] [(0, 1), (1, 2)] =
         Inl (TypeError msg))
   \<and> equally_sized_pieces piecewise_constant (\<lambda>g. []) [(''Alice'', [0, 0])] (1 / 2) =
       Some (Inr \<lparr>alloc_agents = [], alloc_pieces = []\<rparr>)"
proof -
  have 3: "equally_sized_pieces piecewise_constant (\<lambda>g. []) [(''Alice'', [0, 0])] (1 / 2) =
       Some (Inr \<lparr>alloc_agents = [], alloc_pieces = []\<rparr>)" by code_simp
  have 1: "discrete_setting piecewise_constant first_fit [(''Alice'', [0, 0])] [(0, 1), (1, 2)] =
     Inl (TypeError ''NoneType object is not iterable'')" by code_simp
  have z: "\<forall>t ps. change_partition [(0, 1), (1, 2)] t = Inr ps \<longrightarrow>
            (\<forall>a \<in> set [(''Alice'', [0, 0 :: real])]. \<forall>p \<in> set ps.
               eval piecewise_constant a (fst p) (snd p) = 0)"
    by (simp add: piecewise_constant_def)
  have 2: "\<exists>msg. discrete_setting piecewise_constant mwm [(''Alice'', [0, 0])] [(0, 1), (1, 2)] =
         Inl (TypeError msg)"
    by (rule discrete_setting_all_zero [OF _ z]) simp
  from 1 2 3 show ?thesis by blast
qed

text \<open>
  C7 (the code departs from it). \<^verbatim>\<open>discrete_setting\<close> has no input check. With an empty
  pieces sequence a ValueError does come first, from \<^verbatim>\<open>math.log(0, 2)\<close>. With an empty
  agent list and at least one piece every level is coarsened, evaluated and matched, and
  the exception is the TypeError raised after the loop (or inside it, when the solver
  returns an edge the graph does not have), whatever the agents' valuations and whatever
  the solver.
\<close>

theorem discrete_setting_unchecked_input:
  "discrete_setting orc mwm agents [] = Inl (ValueError ''math domain error'')
   \<and> (\<exists>msg. discrete_setting orc mwm [] (p # ps) = Inl (TypeError msg))
   \<and> discrete_setting piecewise_constant first_fit [] [(0, 1), (1, 2)] =
       Inl (TypeError ''NoneType object is not iterable'')"
proof -
  have 1: "discrete_setting orc mwm agents [] = Inl (ValueError ''math domain error'')"
    by (simp add: discrete_setting_def int_log2_def)
  have 2: "\<exists>msg. discrete_setting orc mwm [] (p # ps) = Inl (TypeError msg)"
    by (rule discrete_setting_all_zero) simp_all
  have 3: "discrete_setting piecewise_constant first_fit [] [(0, 1), (1, 2)] =
       Inl (TypeError ''NoneType object is not iterable'')" by code_simp
  from 1 2 3 show ?thesis by blast
qed

subsection \<open>The two graphs of Algorithm 1\<close>

lemma tiling_graphs_same_edges:
  "adj (tiling_graph orc agents len p0 pd p0) = adj (tiling_graph orc agents len p0 pd pd)"
  unfolding tiling_graph_def Let_def by (simp add: adj_create_matching_graph)

lemma tiling_graph_has_all_evaluations:
  assumes "a \<in> set agents" and "p \<in> set (normalize len (p0 @ pd))"
  shows "get_edge_data (tiling_graph orc agents len p0 pd tiling) (AgentNode a) (PieceNode p)
           = Some (eval orc a (fst p) (snd p))"
proof -
  let ?ev = "evaluate orc agents (normalize len (p0 @ pd))"
  let ?g = "tiling_graph orc agents len p0 pd tiling"
  have in_ev: "map_of ?ev (a, p) = Some (eval orc a (fst p) (snd p))"
    by (rule evaluate_keys [OF assms])
  then have mem: "((a, p), eval orc a (fst p) (snd p)) \<in> set ?ev" by (rule map_of_SomeD)
  have "get_edge_data ?g (AgentNode a) (PieceNode p) \<noteq> None"
  proof
    assume "get_edge_data ?g (AgentNode a) (PieceNode p) = None"
    then have "map_of (fold (\<lambda>kv. AList.update (edge_of (fst kv)) (snd kv)) ?ev [])
                 (AgentNode a, PieceNode p) = None"
      unfolding get_edge_data_def tiling_graph_def Let_def adj_create_matching_graph .
    from map_of_fold_update_None [OF this] mem show False
      by (auto simp: edge_of_def)
  qed
  then obtain w where w: "get_edge_data ?g (AgentNode a) (PieceNode p) = Some w" by blast
  from tiling_graph_edges [OF w] have "w = eval orc a (fst p) (snd p)" by blast
  with w show ?thesis by simp
qed

text \<open>
  C1 (the code departs from it). \<^verbatim>\<open>create_matching_graph\<close> adds an edge for every key of
  the evaluations it is given, and \<^verbatim>\<open>equally_sized_pieces\<close> passes to both calls the
  evaluations of the pieces of both tilings. The two graphs therefore have the same edges,
  each to the pieces of both tilings. On the second docstring example (piece size \<open>3/5\<close>,
  tilings \<open>[(0, 3)]\<close> and \<open>[(2, 5)]\<close> in agent coordinates) the graph built for the first
  tiling has the piece \<open>(2, 5)\<close> of the other tiling as a node, with an edge from each agent;
  its edges Bob--\<open>(0, 3)\<close> (weight \<open>9\<close>) and Alice--\<open>(2, 5)\<close> (weight \<open>3\<close>) form a matching of
  weight \<open>12\<close>, heavier than anything that uses \<open>(0, 3)\<close> alone, and on that matching the
  algorithm hands out the two overlapping pieces where the docstring expects
  \<open>Bob gets [(0, 3)]\<close> only.
\<close>

theorem tiling_graph_mixes_tilings:
  "create_partition (3 / 5) 0 = Some [(0, 3 / 5)]
   \<and> create_partition (3 / 5) (1 - of_int (py_int (1 / (3 / 5))) * (3 / 5)) = Some [(2 / 5, 1)]
   \<and> normalize 5 [(0, 3 / 5)] = [(0, 3)]
   \<and> normalize 5 [(2 / 5, 1)] = [(2, 5)]
   \<and> PieceNode (2, 5) \<in> set (nodes (tiling_graph piecewise_constant
          [(''Alice'', [1, 1, 1, 1, 1]), (''Bob'', [3, 3, 3, 1, 1])] 5 [(0, 3 / 5)] [(2 / 5, 1)] [(0, 3 / 5)]))
   \<and> get_edge_data (tiling_graph piecewise_constant
          [(''Alice'', [1, 1, 1, 1, 1]), (''Bob'', [3, 3, 3, 1, 1])] 5 [(0, 3 / 5)] [(2 / 5, 1)] [(0, 3 / 5)])
        (AgentNode (''Alice'', [1, 1, 1, 1, 1])) (PieceNode (2, 5)) = Some 3
   \<and> get_edge_data (tiling_graph piecewise_constant
          [(''Alice'', [1, 1, 1, 1, 1]), (''Bob'', [3, 3, 3, 1, 1])] 5 [(0, 3 / 5)] [(2 / 5, 1)] [(0, 3 / 5)])
        (AgentNode (''Bob'', [3, 3, 3, 1, 1])) (PieceNode (0, 3)) = Some 9
   \<and> calculate_weight (tiling_graph piecewise_constant
          [(''Alice'', [1, 1, 1, 1, 1]), (''Bob'', [3, 3, 3, 1, 1])] 5 [(0, 3 / 5)] [(2 / 5, 1)] [(0, 3 / 5)])
        [(AgentNode (''Bob'', [3, 3, 3, 1, 1]), PieceNode (0, 3)),
         (AgentNode (''Alice'', [1, 1, 1, 1, 1]), PieceNode (2, 5))] = Inr 12
   \<and> equally_sized_pieces piecewise_constant
        (\<lambda>g. [(AgentNode (''Bob'', [3, 3, 3, 1, 1]), PieceNode (0, 3)),
               (AgentNode (''Alice'', [1, 1, 1, 1, 1]), PieceNode (2, 5))])
        [(''Alice'', [1, 1, 1, 1, 1]), (''Bob'', [3, 3, 3, 1, 1])] (3 / 5) =
       Some (Inr \<lparr>alloc_agents = [AgentNode (''Bob'', [3, 3, 3, 1, 1]), AgentNode (''Alice'', [1, 1, 1, 1, 1])],
                  alloc_pieces = [Some [PieceNode (0, 3)], Some [PieceNode (2, 5)]]\<rparr>)"
proof (intro conjI)
  show "create_partition (3 / 5) 0 = Some [(0, 3 / 5)]" by code_simp
  show "create_partition (3 / 5) (1 - of_int (py_int (1 / (3 / 5))) * (3 / 5)) = Some [(2 / 5, 1)]"
    by code_simp
  show "normalize 5 [(0, 3 / 5)] = [(0, 3)]" by code_simp
  show "normalize 5 [(2 / 5, 1)] = [(2, 5)]" by code_simp
  show "PieceNode (2, 5) \<in> set (nodes (tiling_graph piecewise_constant
          [(''Alice'', [1, 1, 1, 1, 1]), (''Bob'', [3, 3, 3, 1, 1])] 5 [(0, 3 / 5)] [(2 / 5, 1)] [(0, 3 / 5)]))"
    by code_simp
  show "get_edge_data (tiling_graph piecewise_constant
          [(''Alice'', [1, 1, 1, 1, 1]), (''Bob'', [3, 3, 3, 1, 1])] 5 [(0, 3 / 5)] [(2 / 5, 1)] [(0, 3 / 5)])
        (AgentNode (''Alice'', [1, 1, 1, 1, 1])) (PieceNode (2, 5)) = Some 3"
    by code_simp
  show "get_edge_data (tiling_graph piecewise_constant
          [(''Alice'', [1, 1, 1, 1, 1]), (''Bob'', [3, 3, 3, 1, 1])] 5 [(0, 3 / 5)] [(2 / 5, 1)] [(0, 3 / 5)])
        (AgentNode (''Bob'', [3, 3, 3, 1, 1])) (PieceNode (0, 3)) = Some 9"
    by code_simp
  show "calculate_weight (tiling_graph piecewise_constant
          [(''Alice'', [1, 1, 1, 1, 1]), (''Bob'', [3, 3, 3, 1, 1])] 5 [(0, 3 / 5)] [(2 / 5, 1)] [(0, 3 / 5)])
        [(AgentNode (''Bob'', [3, 3, 3, 1, 1]), PieceNode (0, 3)),
         (AgentNode (''Alice'', [1, 1, 1, 1, 1]), PieceNode (2, 5))] = Inr 12"
    by code_simp
  show "equally_sized_pieces piecewise_constant
        (\<lambda>g. [(AgentNode (''Bob'', [3, 3, 3, 1, 1]), PieceNode (0, 3)),
               (AgentNode (''Alice'', [1, 1, 1, 1, 1]), PieceNode (2, 5))])
        [(''Alice'', [1, 1, 1, 1, 1]), (''Bob'', [3, 3, 3, 1, 1])] (3 / 5) =
       Some (Inr \<lparr>alloc_agents = [AgentNode (''Bob'', [3, 3, 3, 1, 1]), AgentNode (''Alice'', [1, 1, 1, 1, 1])],
                  alloc_pieces = [Some [PieceNode (0, 3)], Some [PieceNode (2, 5)]]\<rparr>)"
    by code_simp
qed

subsection \<open>Normalized pieces\<close>







subsection \<open>The continuous setting\<close>

lemma mark_loop_marks:
  "set (mark_loop orc a v k start parts) = set parts \<union> set (probe_marks orc a v k start)
   \<and> (distinct parts \<longrightarrow> distinct (mark_loop orc a v k start parts))"
proof (induction k arbitrary: start parts)
  case 0
  then show ?case by simp
next
  case (Suc k)
  show ?case
  proof (cases "mark orc a start v")
    case None
    then show ?thesis by simp
  next
    case (Some stop)
    then show ?thesis using Suc [of "round4 stop" "set_add (round4 stop) parts"]
      by (simp add: Let_def)
  qed
qed

lemma fold_mark_loop:
  "set (fold (\<lambda>a parts. mark_loop orc a (v a) k 0 parts) s parts)
     = set parts \<union> (\<Union>a \<in> set s. set (probe_marks orc a (v a) k 0))
   \<and> (distinct parts \<longrightarrow> distinct (fold (\<lambda>a parts. mark_loop orc a (v a) k 0 parts) s parts))"
proof (induction s arbitrary: parts)
  case Nil
  then show ?case by simp
next
  case (Cons a s)
  from mark_loop_marks [of orc a "v a" k 0 parts] Cons [of "mark_loop orc a (v a) k 0 parts"]
  show ?case by auto
qed

lemma pieces_loop_zip: "pieces_loop start rest acc = acc @ zip (start # rest) rest"
  by (induction rest arbitrary: start acc) auto

lemma sort_is_sorted_list_of_set:
  "distinct xs \<Longrightarrow> sort xs = sorted_list_of_set (set xs)"
  by (simp add: sorted_list_of_set_sort_remdups distinct_remdups_id)

lemma fold_set_add_agents:
  "set (fold set_add xs acc) = set acc \<union> set xs \<and> (distinct acc \<longrightarrow> distinct (fold set_add xs acc))"
  by (induction xs arbitrary: acc) auto

text \<open>
  C9. For a non-empty agent list of size \<open>n\<close>: the probe list \<open>S\<close> consists of
  \<open>n div 2\<close> draws, with replacement, from the agents; the boundaries are the point \<open>0\<close>
  together with the positions reported by the agents of \<open>S\<close> (for each agent, starting at
  \<open>0\<close>, the position that ends a range worth \<open>cake_value / (2 n)\<close>, rounded to four
  decimals, and then the next one from there, at most \<open>2 n\<close> of them and none after the
  agent reports no position); the partition \<open>J\<close> consists of the pairs of consecutive
  boundaries in increasing order; and the result is, unchanged, the result of
  \<^verbatim>\<open>discrete_setting\<close> on the agents that are not in \<open>S\<close> (each once) with \<open>J\<close>.
\<close>

theorem continuous_setting_refines:
  assumes "agents \<noteq> []"
  shows "let S = map (\<lambda>i. agents ! (rnd i mod length agents)) [0..<length agents div 2] in
     length S = length agents div 2
     \<and> set S \<subseteq> set agents
     \<and> (\<exists>rest. distinct rest \<and> set rest = set agents - set S
          \<and> continuous_setting orc mwm rnd agents =
              discrete_setting orc mwm rest
                (consecutive (sorted_list_of_set
                   (insert 0 (\<Union>a \<in> set S. set (probe_marks orc a
                      (cake_value orc a / (2 * real (length agents))) (2 * length agents) 0))))))"
proof -
  let ?n = "length agents"
  let ?S = "map (\<lambda>i. agents ! (rnd i mod ?n)) [0..<?n div 2]"
  let ?rest = "filter (\<lambda>a. a \<notin> set ?S) (fold set_add agents [])"
  let ?v = "\<lambda>a. cake_value orc a / (2 * real ?n)"
  let ?parts = "fold (\<lambda>a parts. mark_loop orc a (?v a) (2 * ?n) 0 parts) ?S (set_add 0 [])"
  let ?B = "insert 0 (\<Union>a \<in> set ?S. set (probe_marks orc a (?v a) (2 * ?n) 0))"
  have n0: "0 < ?n" using assms by simp
  have ch: "choices rnd agents (?n div 2) = Inr ?S" using assms by (simp add: choices_def)
  have sub: "set ?S \<subseteq> set agents"
  proof
    fix x assume "x \<in> set ?S"
    then obtain i where "x = agents ! (rnd i mod ?n)" by auto
    moreover have "rnd i mod ?n < ?n" using n0 by simp
    ultimately show "x \<in> set agents" by simp
  qed
  have fa: "set (fold set_add agents []) = set agents" "distinct (fold set_add agents [])"
    using fold_set_add_agents [of agents "[]"] by simp_all
  have rest: "distinct ?rest" "set ?rest = set agents - set ?S"
    using fa by auto
  have parts: "set ?parts = ?B" "distinct ?parts"
    using fold_mark_loop [of orc ?v "2 * ?n" ?S "set_add 0 []"] by (simp_all add: set_add_def)
  have srt: "sort ?parts = sorted_list_of_set ?B"
    using sort_is_sorted_list_of_set [OF parts(2)] parts(1) by simp
  have fin: "finite ?B" by simp
  define sorted_bs where "sorted_bs = sorted_list_of_set ?B"
  have "set sorted_bs = ?B" unfolding sorted_bs_def using fin by (rule set_sorted_list_of_set)
  then have "0 \<in> set sorted_bs" by (simp only: insertI1)
  then obtain b bs where "sorted_bs = b # bs" by (cases sorted_bs) simp_all
  then have bs: "sorted_list_of_set ?B = b # bs" unfolding sorted_bs_def .
  have J: "pieces_loop b bs [] = consecutive (sorted_list_of_set ?B)"
    unfolding bs consecutive_def by (simp add: pieces_loop_zip)
  have "continuous_setting orc mwm rnd agents =
          (case sort ?parts of [] \<Rightarrow> Inl (IndexError ''list index out of range'')
           | start # rest \<Rightarrow> discrete_setting orc mwm ?rest (pieces_loop start rest []))"
    unfolding continuous_setting_def Let_def ch by (simp only: sum.case)
  also have "\<dots> = discrete_setting orc mwm ?rest (pieces_loop b bs [])"
    unfolding srt bs by (simp only: list.case)
  finally have run: "continuous_setting orc mwm rnd agents =
          discrete_setting orc mwm ?rest (consecutive (sorted_list_of_set ?B))"
    unfolding J .
  have len: "length ?S = ?n div 2" by simp
  from rest run have "\<exists>r. distinct r \<and> set r = set agents - set ?S
          \<and> continuous_setting orc mwm rnd agents =
              discrete_setting orc mwm r (consecutive (sorted_list_of_set ?B))"
    by (intro exI [of _ ?rest] conjI)
  with len sub show ?thesis unfolding Let_def by (intro conjI)
qed

lemma distinct_singleton_list:
  assumes "distinct xs" and "set xs = {x}"
  shows "xs = [x]"
proof (cases xs)
  case Nil
  then show ?thesis using assms(2) by simp
next
  case (Cons y ys)
  have y: "y = x" using Cons assms(2) by auto
  have "ys = []"
  proof (cases ys)
    case Nil
    then show ?thesis .
  next
    case (Cons z zs)
    have "z \<in> set xs" using \<open>xs = y # ys\<close> Cons by simp
    then have "z = x" using assms(2) by simp
    moreover have "z \<noteq> y" using assms(1) \<open>xs = y # ys\<close> Cons by auto
    ultimately show ?thesis using y by simp
  qed
  then show ?thesis using Cons y by simp
qed

theorem continuous_setting_refines_witness:
  "[(''Alice1'', [100, 1]), (''Alice2'', [100, 1 :: real])] \<noteq> []
   \<and> continuous_setting piecewise_constant first_fit (\<lambda>i. 0)
        [(''Alice1'', [100, 1]), (''Alice2'', [100, 1])] =
      discrete_setting piecewise_constant first_fit [(''Alice2'', [100, 1])]
        [(0, 101 / 400), (101 / 400, 101 / 200), (101 / 200, 303 / 400), (303 / 400, 2)]
   \<and> continuous_setting piecewise_constant first_fit (\<lambda>i. 0)
        [(''Alice1'', [100, 1]), (''Alice2'', [100, 1])] =
      Inr \<lparr>alloc_agents = [AgentNode (''Alice2'', [100, 1])],
           alloc_pieces = [Some [PieceNode (0, 2)]]\<rparr>"
proof -
  let ?A = "[(''Alice1'', [100, 1]), (''Alice2'', [100, 1 :: real])]"
  have ne: "?A \<noteq> []" by simp
  have S: "map (\<lambda>i. ?A ! ((\<lambda>i. 0) i mod length ?A)) [0..<length ?A div 2] = [(''Alice1'', [100, 1])]"
    by code_simp
  have pm: "probe_marks piecewise_constant (''Alice1'', [100, 1])
              (cake_value piecewise_constant (''Alice1'', [100, 1]) / (2 * real (length ?A)))
              (2 * length ?A) 0 = [101 / 400, 101 / 200, 303 / 400, 2]"
    by code_simp
  have st: "(insert 0 (\<Union>a \<in> set [(''Alice1'', [100, 1 :: real])]. set (probe_marks piecewise_constant a
                    (cake_value piecewise_constant a / (2 * real (length ?A))) (2 * length ?A) 0))) =
            set [0, 101 / 400, 101 / 200, 303 / 400, 2]"
    by (simp only: list.set UN_insert UN_empty Un_empty_right pm)
  have sd: "sorted [0, 101 / 400, 101 / 200, 303 / 400, 2 :: real]"
           "distinct [0, 101 / 400, 101 / 200, 303 / 400, 2 :: real]" by simp_all
  have B: "consecutive (sorted_list_of_set
              (insert 0 (\<Union>a \<in> set [(''Alice1'', [100, 1 :: real])]. set (probe_marks piecewise_constant a
                    (cake_value piecewise_constant a / (2 * real (length ?A))) (2 * length ?A) 0)))) =
           [(0, 101 / 400), (101 / 400, 101 / 200), (101 / 200, 303 / 400), (303 / 400, 2)]"
    unfolding st sorted_list_of_set.idem_if_sorted_distinct [OF sd] consecutive_def by simp
  note t = continuous_setting_refines [OF ne, of "\<lambda>i. 0" piecewise_constant first_fit]
  note ex = t [unfolded Let_def S B, THEN conjunct2, THEN conjunct2]
  from ex obtain rest where c: "distinct rest \<and> set rest = set ?A - set [(''Alice1'', [100, 1 :: real])]
      \<and> continuous_setting piecewise_constant first_fit (\<lambda>i. 0) ?A =
         discrete_setting piecewise_constant first_fit rest
           [(0, 101 / 400), (101 / 400, 101 / 200), (101 / 200, 303 / 400), (303 / 400, 2)]" ..
  note rest = c [THEN conjunct1] c [THEN conjunct2, THEN conjunct1]
  note run = c [THEN conjunct2, THEN conjunct2]
  have "set rest = {(''Alice2'', [100, 1])}" using rest(2) by auto
  with rest(1) have r: "rest = [(''Alice2'', [100, 1])]" by (rule distinct_singleton_list)
  have d: "discrete_setting piecewise_constant first_fit [(''Alice2'', [100, 1])]
        [(0, 101 / 400), (101 / 400, 101 / 200), (101 / 200, 303 / 400), (303 / 400, 2)] =
      Inr \<lparr>alloc_agents = [AgentNode (''Alice2'', [100, 1])],
           alloc_pieces = [Some [PieceNode (0, 2)]]\<rparr>"
    by code_simp
  from run r d ne show ?thesis by simp
qed

end
